theory Spec2Isabelle
  imports Complex_Main "HOL-Library.AList" "HOL-Library.Word"
begin

unbundle bit_operations_syntax

section \<open>Data model of \<open>src/server/index.js\<close>\<close>

text \<open>
  The four channels are the keys of the constant \<open>channels\<close> (lines 73-78) and the only
  values of the \<open>channel\<close> field of the default questions (lines 42-70).
\<close>

datatype channel = Cognitive | Creative | Technical | Social

fun channel_name :: "channel \<Rightarrow> string" where
  "channel_name Cognitive = ''cognitive''"
| "channel_name Creative = ''creative''"
| "channel_name Technical = ''technical''"
| "channel_name Social = ''social''"

text \<open>\<open>channels[c].color\<close>, lines 73-78.\<close>

fun channel_color :: "channel \<Rightarrow> string" where
  "channel_color Cognitive = ''#3A7BFF''"
| "channel_color Creative = ''#8B5CF6''"
| "channel_color Technical = ''#22C55E''"
| "channel_color Social = ''#F59E0B''"

text \<open>
  The object \<open>{ cognitive: 0, creative: 0, technical: 0, social: 0 }\<close>. Weights are
  counts (they start at 0 and grow by 1), so they are natural numbers.
\<close>

record embedding_vec =
  cognitive :: nat
  creative :: nat
  technical :: nat
  social :: nat

definition zero_embedding :: embedding_vec where
  "zero_embedding = \<lparr>cognitive = 0, creative = 0, technical = 0, social = 0\<rparr>"

text \<open>\<open>embedding[channel] += weight\<close> (line 90).\<close>

fun add_channel :: "channel \<Rightarrow> nat \<Rightarrow> embedding_vec \<Rightarrow> embedding_vec" where
  "add_channel Cognitive w e = e\<lparr>cognitive := cognitive e + w\<rparr>"
| "add_channel Creative w e = e\<lparr>creative := creative e + w\<rparr>"
| "add_channel Technical w e = e\<lparr>technical := technical e + w\<rparr>"
| "add_channel Social w e = e\<lparr>social := social e + w\<rparr>"

text \<open>\<open>Object.entries(embedding)\<close>: the keys in the order they were written.\<close>

definition entries :: "embedding_vec \<Rightarrow> (channel \<times> nat) list" where
  "entries e = [(Cognitive, cognitive e), (Creative, creative e),
                (Technical, technical e), (Social, social e)]"

text \<open>
  A JavaScript \<open>Map\<close> keeps its keys in insertion order: it is an association list,
  \<open>get\<close> is \<^const>\<open>map_of\<close>, \<open>set\<close> is \<^const>\<open>AList.update\<close> (an existing key keeps its
  place, a new key goes to the end), \<open>delete\<close> is \<^const>\<open>AList.delete\<close>, and \<open>size\<close> is
  the length of the list (keys stay distinct under these operations).
\<close>

type_synonym ('k, 'v) jsmap = "('k \<times> 'v) list"

text \<open>Line 26: \<open>participants: id -> { id, name, socketId }\<close>.\<close>

record participant =
  p_id :: string
  p_name :: string
  p_socketId :: string

text \<open>Line 29. The target is absent (\<open>null\<close>, \<open>undefined\<close>) or a string.\<close>

record response =
  r_targetParticipantId :: "string option"
  r_channel :: channel
  r_timestamp :: nat

text \<open>Line 31 and lines 648-652.\<close>

record node =
  n_id :: string
  n_embedding :: embedding_vec
  connections :: "(string, (channel, nat) jsmap) jsmap"

text \<open>Line 32 and lines 705-711.\<close>

record edge =
  fromNodeId :: string
  toNodeId :: string
  e_channel :: channel
  weight :: nat
  e_timestamp :: nat

record question =
  q_text :: string
  q_channel :: channel

text \<open>Lines 30-34.\<close>

record graph =
  nodes :: "(string, node) jsmap"
  edges :: "(string, edge) jsmap"
  identityMap :: "(string, string) jsmap"

text \<open>Lines 23-39. \<open>autoAdvanceTimer\<close> holds the handle that \<open>setTimeout\<close> returned.\<close>

record session =
  s_id :: "string option"
  isActive :: bool
  participants :: "(string, participant) jsmap"
  questions :: "question list"
  currentQuestionIndex :: int
  responses :: "(int, (string, response) jsmap) jsmap"
  graph :: graph
  epochCount :: nat
  identityDeleted :: bool
  isPaused :: bool
  autoAdvanceTimer :: "nat option"

section \<open>Embedding Calculator and Centrality Analyzer\<close>

text \<open>
  \<open>calculateEmbeddingVector\<close>, lines 81-98: for every node that has a connection to
  \<open>participantId\<close>, every (channel, weight) of that connection is added to the vector.
  The values of \<open>connections\<close> are always \<open>Map\<close>s (lines 695-697), so
  \<open>instanceof Map\<close> holds.
\<close>

definition add_weights :: "embedding_vec \<Rightarrow> (channel, nat) jsmap \<Rightarrow> embedding_vec" where
  "add_weights = foldl (\<lambda>e (c, w). add_channel c w e)"

definition calculateEmbeddingVector :: "graph \<Rightarrow> string \<Rightarrow> embedding_vec" where
  "calculateEmbeddingVector g participantId =
     foldl (\<lambda>emb (sourceId, sourceNode).
              case map_of (connections sourceNode) participantId of
                None \<Rightarrow> emb
              | Some channelWeights \<Rightarrow> add_weights emb channelWeights)
           zero_embedding (nodes g)"

record centrality =
  inDegree :: nat
  outDegree :: nat
  betweenness :: nat
  totalVolume :: nat

text \<open>\<open>isOnShortestPath\<close>, lines 277-284.\<close>

definition isOnShortestPath :: "graph \<Rightarrow> string \<Rightarrow> string \<Rightarrow> string \<Rightarrow> bool" where
  "isOnShortestPath g start end middle =
     (case map_of (nodes g) start of
        None \<Rightarrow> False
      | Some startNode \<Rightarrow>
          map_of (connections startNode) middle \<noteq> None \<and>
          (case map_of (nodes g) middle of
             None \<Rightarrow> False
           | Some middleNode \<Rightarrow> map_of (connections middleNode) end \<noteq> None))"

text \<open>\<open>calculateBetweennessCentrality\<close>, lines 258-275: the pairs \<open>i < j\<close> of node keys.\<close>

fun betweenness_pairs :: "graph \<Rightarrow> string \<Rightarrow> string list \<Rightarrow> nat" where
  "betweenness_pairs g nodeId [] = 0"
| "betweenness_pairs g nodeId (ni # rest) =
     length (filter (\<lambda>nj. ni \<noteq> nodeId \<and> nj \<noteq> nodeId \<and> isOnShortestPath g ni nj nodeId) rest)
     + betweenness_pairs g nodeId rest"

definition calculateBetweennessCentrality :: "graph \<Rightarrow> string \<Rightarrow> nat" where
  "calculateBetweennessCentrality g nodeId = betweenness_pairs g nodeId (map fst (nodes g))"

text \<open>\<open>calculateCentrality\<close>, lines 219-256.\<close>

definition sum_weights :: "nat \<Rightarrow> (channel, nat) jsmap \<Rightarrow> nat" where
  "sum_weights = foldl (\<lambda>acc (c, w). acc + w)"

definition calculateCentrality :: "graph \<Rightarrow> string \<Rightarrow> centrality" where
  "calculateCentrality g participantId =
     (case map_of (nodes g) participantId of
        None \<Rightarrow> \<lparr>inDegree = 0, outDegree = 0, betweenness = 0, totalVolume = 0\<rparr>
      | Some participant \<Rightarrow>
          let inDeg = foldl (\<lambda>acc (sourceId, sourceNode).
                        case map_of (connections sourceNode) participantId of
                          None \<Rightarrow> acc
                        | Some channelWeights \<Rightarrow> sum_weights acc channelWeights)
                      0 (nodes g);
              outDeg = foldl (\<lambda>acc (targetId, channelWeights). sum_weights acc channelWeights)
                         0 (connections participant);
              betw = calculateBetweennessCentrality g participantId
          in \<lparr>inDegree = inDeg, outDegree = outDeg, betweenness = betw,
              totalVolume = inDeg + outDeg\<rparr>)"

text \<open>The sum over the four channels of a vector.\<close>

definition embedding_total :: "embedding_vec \<Rightarrow> nat" where
  "embedding_total e = cognitive e + creative e + technical e + social e"

section \<open>Color Blender\<close>

text \<open>
  \<open>hexToRgb\<close>, lines 209-216: the regular expression
  \<open>/^#?([a-f\d]{2})([a-f\d]{2})([a-f\d]{2})$/i\<close> accepts an optional \<open>#\<close> and exactly
  six hexadecimal digits of either case; \<open>parseInt(_, 16)\<close> reads each pair. Anything
  else gives \<open>{ r: 0, g: 0, b: 0 }\<close>.
\<close>

record rgb =
  rgb_r :: int
  rgb_g :: int
  rgb_b :: int

definition hexDigit :: "char \<Rightarrow> int option" where
  "hexDigit c =
     (let n = (of_char c :: nat) in
      if 48 \<le> n \<and> n \<le> 57 then Some (int n - 48)
      else if 97 \<le> n \<and> n \<le> 102 then Some (int n - 87)
      else if 65 \<le> n \<and> n \<le> 70 then Some (int n - 55)
      else None)"

definition parseHexPair :: "char \<Rightarrow> char \<Rightarrow> int option" where
  "parseHexPair hi lo =
     (case (hexDigit hi, hexDigit lo) of
        (Some h, Some l) \<Rightarrow> Some (16 * h + l)
      | _ \<Rightarrow> None)"

definition hexToRgb :: "string \<Rightarrow> rgb" where
  "hexToRgb hex =
     (let digits = (case hex of c # rest \<Rightarrow> if c = CHR ''#'' then rest else hex | [] \<Rightarrow> hex)
      in case digits of
           [r1, r2, g1, g2, b1, b2] \<Rightarrow>
             (case (parseHexPair r1 r2, parseHexPair g1 g2, parseHexPair b1 b2) of
                (Some rv, Some gv, Some bv) \<Rightarrow> \<lparr>rgb_r = rv, rgb_g = gv, rgb_b = bv\<rparr>
              | _ \<Rightarrow> \<lparr>rgb_r = 0, rgb_g = 0, rgb_b = 0\<rparr>)
         | _ \<Rightarrow> \<lparr>rgb_r = 0, rgb_g = 0, rgb_b = 0\<rparr>)"

text \<open>
  \<open>Math.round\<close> rounds to the nearest integer, a tie towards plus infinity.
\<close>

definition js_round :: "rat \<Rightarrow> int" where
  "js_round x = \<lfloor>x + 1 / 2\<rfloor>"

text \<open>
  The result of \<open>generateNodeColor\<close> is the string \<open>#888888\<close> or the string
  \<open>rgb(r, g, b)\<close> built from three numbers.
\<close>

datatype css_color = Hex string | Rgb int int int

text \<open>The red, green and blue components that a colour string denotes.\<close>

fun components :: "css_color \<Rightarrow> rgb" where
  "components (Hex h) = hexToRgb h"
| "components (Rgb rv gv bv) = \<lparr>rgb_r = rv, rgb_g = gv, rgb_b = bv\<rparr>"

text \<open>
  Lines 107-112: the first channel whose weight is strictly greater than every weight
  before it, starting from \<open>maxWeight = 0\<close>.
\<close>

definition dominant :: "(channel \<times> nat) list \<Rightarrow> channel option \<times> nat" where
  "dominant = foldl (\<lambda>(dominantChannel, maxWeight) (c, w).
                        if w > maxWeight then (Some c, w) else (dominantChannel, maxWeight))
                    (None, 0)"

text \<open>
  \<open>generateNodeColor\<close>, lines 99-141. The weights are counts; the arithmetic on them is
  in double precision. The numbers are modelled as rationals and every operation whose
  result a double may not hold exactly is passed through the parameter \<open>fl\<close>, the
  rounding of a rational to a double: the literal \<open>0.8\<close>, each division and
  multiplication, and each addition of the accumulation. The literal \<open>0.5\<close> is a
  double. With \<open>fl = (\<lambda>x. x)\<close> the function computes in exact arithmetic.
\<close>

definition add_secondary ::
  "(rat \<Rightarrow> rat) \<Rightarrow> channel \<Rightarrow> nat \<Rightarrow> rat \<times> rat \<times> rat \<Rightarrow> channel \<times> nat \<Rightarrow> rat \<times> rat \<times> rat" where
  "add_secondary fl dominantChannel totalWeight acc cw =
     (case (acc, cw) of
        ((rv, gv, bv), (c, w)) \<Rightarrow>
          if c \<noteq> dominantChannel \<and> w > 0 then
            let color = hexToRgb (channel_color c);
                factor = fl (fl (of_nat w / of_nat totalWeight) * (1 / 2))
            in (fl (rv + fl (of_int (rgb_r color) * factor)),
                fl (gv + fl (of_int (rgb_g color) * factor)),
                fl (bv + fl (of_int (rgb_b color) * factor)))
          else (rv, gv, bv))"

definition generateNodeColor :: "(rat \<Rightarrow> rat) \<Rightarrow> embedding_vec \<Rightarrow> css_color" where
  "generateNodeColor fl embedding =
     (let totalWeight = foldl (\<lambda>sum val. sum + val) 0 (map snd (entries embedding)) in
      if totalWeight = 0 then Hex ''#888888''
      else
        case dominant (entries embedding) of
          (None, maxWeight) \<Rightarrow> Hex ''#888888''
        | (Some dominantChannel, maxWeight) \<Rightarrow>
            let baseColor = hexToRgb (channel_color dominantChannel);
                dominantStrength = min (fl (8 / 10)) (fl (of_nat maxWeight / of_nat totalWeight));
                start = (fl (of_int (rgb_r baseColor) * dominantStrength),
                         fl (of_int (rgb_g baseColor) * dominantStrength),
                         fl (of_int (rgb_b baseColor) * dominantStrength))
            in case foldl (add_secondary fl dominantChannel totalWeight) start (entries embedding) of
                 (rv, gv, bv) \<Rightarrow>
                   Rgb (min 255 (max 0 (js_round rv)))
                       (min 255 (max 0 (js_round gv)))
                       (min 255 (max 0 (js_round bv))))"

text \<open>The weight that a vector holds for a channel.\<close>

fun channel_weight :: "embedding_vec \<Rightarrow> channel \<Rightarrow> nat" where
  "channel_weight e Cognitive = cognitive e"
| "channel_weight e Creative = creative e"
| "channel_weight e Technical = technical e"
| "channel_weight e Social = social e"

text \<open>
  A rounding with relative error at most \<open>2^-53\<close>: what rounding to the nearest double
  guarantees for every number in the normal range.
\<close>

definition rounds_to_nearest :: "(rat \<Rightarrow> rat) \<Rightarrow> bool" where
  "rounds_to_nearest fl \<longleftrightarrow> (\<forall>x. \<bar>fl x - x\<bar> \<le> \<bar>x\<bar> / 2 ^ 53)"

section \<open>Anonymization Layer\<close>











section \<open>Session State Machine\<close>

text \<open>
  The session of lines 23-39 lives in a Node.js process. Beside it the process holds,
  for every socket, the property \<open>socket.participantId\<close> that \<open>join-session\<close> sets
  (line 658), and the timeouts that \<open>setTimeout\<close> has armed and that have neither fired
  nor been cleared. A pending timeout is its handle and its delay in milliseconds; the
  only callback ever armed is \<open>advanceToNextQuestion\<close> (lines 530-532). Handles are
  issued in sequence, so a handle is never issued twice.
\<close>

record world = session +
  sockets :: "(string, string) jsmap"
  pendingTimeouts :: "(nat \<times> nat) list"
  timeoutSeq :: nat

text \<open>The state of a process that has just started, lines 23-39.\<close>

definition initial_world :: world where
  "initial_world =
     \<lparr>s_id = None, isActive = False, participants = [], questions = [],
      currentQuestionIndex = -1, responses = [],
      graph = \<lparr>nodes = [], edges = [], identityMap = []\<rparr>,
      epochCount = 0, identityDeleted = False, isPaused = False, autoAdvanceTimer = None,
      sockets = [], pendingTimeouts = [], timeoutSeq = 0\<rparr>"

text \<open>
  What a handler sends: \<open>io.emit\<close> to every client, \<open>socket.emit\<close> to the calling
  socket, \<open>res.json\<close> to the caller of an HTTP route.
\<close>

datatype reply =
    ReplyCreated string
  | ReplyWaiting nat nat
  | ReplyQuestion question int
  | ReplyNoMoreQuestions
  | ReplyEpoch nat
  | ReplyPaused bool
  | ReplyNoActiveSession
  | ReplyEnded
  | ReplyAlreadyStarted
  | ReplyStarted

datatype message =
    EmitNewQuestion int string channel "(string \<times> string) list"
  | EmitEpochUpdate nat
  | EmitSessionComplete nat nat
  | EmitSessionEnded
  | EmitParticipantJoined nat
  | EmitParticipantLeft nat
  | EmitResponseCountUpdate int nat nat
  | SocketJoined string nat
  | SocketJoinError string
  | SocketResponseSubmitted
  | Reply reply

text \<open>A handler that throws: reading a property of \<open>undefined\<close>.\<close>

datatype error = TypeError

text \<open>\<open>xs[i]\<close> for an integer \<open>i\<close>: \<open>undefined\<close> outside the array.\<close>

definition nth_js :: "'a list \<Rightarrow> int \<Rightarrow> 'a option" where
  "nth_js xs i = (if 0 \<le> i \<and> i < int (length xs) then Some (xs ! nat i) else None)"

text \<open>A string (or an absent value) in a condition: absent and empty are false.\<close>

fun truthy :: "string option \<Rightarrow> bool" where
  "truthy None = False"
| "truthy (Some s) = (s \<noteq> [])"

text \<open>\<open>clearTimeout(session.autoAdvanceTimer)\<close>: a handle that is not pending is ignored.\<close>

definition clearTimeout :: "nat option \<Rightarrow> world \<Rightarrow> world" where
  "clearTimeout handle w =
     w\<lparr>pendingTimeouts := filter (\<lambda>(h, delay). Some h \<noteq> handle) (pendingTimeouts w)\<rparr>"

text \<open>
  \<open>session.autoAdvanceTimer = setTimeout(() => { advanceToNextQuestion(); }, 5000)\<close>,
  lines 530-532.
\<close>

definition setAutoAdvanceTimeout :: "world \<Rightarrow> world" where
  "setAutoAdvanceTimeout w =
     w\<lparr>autoAdvanceTimer := Some (timeoutSeq w),
       pendingTimeouts := pendingTimeouts w @ [(timeoutSeq w, 5000)],
       timeoutSeq := Suc (timeoutSeq w)\<rparr>"

text \<open>\<open>currentResponses ? currentResponses.size : 0\<close> (lines 481-482, 523-524, 717).\<close>

definition responseCount :: "'a session_scheme \<Rightarrow> int \<Rightarrow> nat" where
  "responseCount s questionIndex =
     (case map_of (responses s) questionIndex of None \<Rightarrow> 0 | Some m \<Rightarrow> length m)"

text \<open>\<open>session.participants.size\<close>.\<close>

definition participantCount :: "'a session_scheme \<Rightarrow> nat" where
  "participantCount s = length (participants s)"

text \<open>\<open>checkForAutoAdvance\<close>, lines 520-534.\<close>

definition checkForAutoAdvance :: "int \<Rightarrow> world \<Rightarrow> world" where
  "checkForAutoAdvance questionIndex w =
     (if isPaused w then w
      else if responseCount w questionIndex \<ge> participantCount w \<and> participantCount w > 0
      then setAutoAdvanceTimeout (clearTimeout (autoAdvanceTimer w) w)
      else w)"

text \<open>
  \<open>Array.from(session.participants.values()).map(p => ({ id: p.id, name: p.name }))\<close>.
\<close>

definition roster :: "'a session_scheme \<Rightarrow> (string \<times> string) list" where
  "roster s = map (\<lambda>(k, p). (p_id p, p_name p)) (participants s)"

text \<open>\<open>advanceToNextQuestion\<close>, lines 536-562.\<close>

definition advanceToNextQuestion :: "world \<Rightarrow> error + (message list \<times> world)" where
  "advanceToNextQuestion w =
     (if isPaused w then Inr ([], w)
      else if currentQuestionIndex w < int (length (questions w)) - 1 then
        let i = currentQuestionIndex w + 1 in
        case nth_js (questions w) i of
          None \<Rightarrow> Inl TypeError
        | Some question \<Rightarrow>
            Inr ([EmitNewQuestion i (q_text question) (q_channel question) (roster w),
                  EmitEpochUpdate (epochCount w + 1)],
                 w\<lparr>currentQuestionIndex := i, epochCount := epochCount w + 1\<rparr>)
      else Inr ([EmitSessionComplete (length (questions w)) (epochCount w)], w))"

text \<open>\<open>POST /api/session/next-question\<close>, lines 478-511.\<close>

definition nextQuestion :: "world \<Rightarrow> error + (message list \<times> world)" where
  "nextQuestion w =
     (if currentQuestionIndex w \<ge> 0
         \<and> responseCount w (currentQuestionIndex w) < participantCount w
         \<and> participantCount w > 0
      then Inr ([Reply (ReplyWaiting (responseCount w (currentQuestionIndex w))
                                     (participantCount w))], w)
      else if currentQuestionIndex w < int (length (questions w)) - 1 then
        let i = currentQuestionIndex w + 1 in
        case nth_js (questions w) i of
          None \<Rightarrow> Inl TypeError
        | Some question \<Rightarrow>
            Inr ([EmitNewQuestion i (q_text question) (q_channel question) (roster w),
                  Reply (ReplyQuestion question i)],
                 w\<lparr>currentQuestionIndex := i\<rparr>)
      else Inr ([Reply ReplyNoMoreQuestions], w))"

text \<open>\<open>POST /api/session/epoch-update\<close>, lines 513-517.\<close>

definition epochUpdate :: "world \<Rightarrow> message list \<times> world" where
  "epochUpdate w =
     ([EmitEpochUpdate (epochCount w + 1), Reply (ReplyEpoch (epochCount w + 1))],
      w\<lparr>epochCount := epochCount w + 1\<rparr>)"

text \<open>\<open>POST /api/session/pause-resume\<close>, lines 565-580.\<close>

definition pauseResume :: "bool \<Rightarrow> world \<Rightarrow> message list \<times> world" where
  "pauseResume pause w =
     (if pause then
        ([Reply (ReplyPaused True)], clearTimeout (autoAdvanceTimer w) (w\<lparr>isPaused := True\<rparr>))
      else
        ([Reply (ReplyPaused False)],
         if currentQuestionIndex w \<ge> 0
         then checkForAutoAdvance (currentQuestionIndex w) (w\<lparr>isPaused := False\<rparr>)
         else w\<lparr>isPaused := False\<rparr>))"

text \<open>
  \<open>POST /api/session/create\<close>, lines 356-386. The identifier is the one \<open>uuidv4\<close>
  returned and the questions are the array \<open>shuffleArray\<close> returned.
\<close>

definition createSession :: "string \<Rightarrow> question list \<Rightarrow> world \<Rightarrow> message list \<times> world" where
  "createSession sessionId shuffledQuestions w =
     ([Reply (ReplyCreated sessionId)],
      w\<lparr>s_id := Some sessionId,
        isActive := True,
        questions := shuffledQuestions,
        participants := [],
        responses := [],
        graph := (graph w)\<lparr>nodes := [], identityMap := []\<rparr>,
        currentQuestionIndex := -1,
        epochCount := 0,
        identityDeleted := False\<rparr>)"

text \<open>\<open>POST /api/session/end\<close>, lines 583-611.\<close>

definition endSession :: "world \<Rightarrow> message list \<times> world" where
  "endSession w =
     (if \<not> isActive w then ([Reply ReplyNoActiveSession], w)
      else
        ([EmitSessionEnded, Reply ReplyEnded],
         (clearTimeout (autoAdvanceTimer w) w)
           \<lparr>s_id := None,
            isActive := False,
            participants := [],
            responses := [],
            graph := (graph w)\<lparr>nodes := [], edges := [], identityMap := []\<rparr>,
            currentQuestionIndex := -1,
            epochCount := 0,
            identityDeleted := False,
            isPaused := False\<rparr>))"

text \<open>\<open>POST /api/session/start-questions\<close>, lines 614-621.\<close>

definition startQuestions :: "world \<Rightarrow> error + (message list \<times> world)" where
  "startQuestions w =
     (if currentQuestionIndex w \<ge> 0 then Inr ([Reply ReplyAlreadyStarted], w)
      else case advanceToNextQuestion w of
             Inl e \<Rightarrow> Inl e
           | Inr (out, w') \<Rightarrow> Inr (out @ [Reply ReplyStarted], w'))"

text \<open>
  \<open>join-session\<close>, lines 627-668. \<open>participantId\<close> is the identifier \<open>uuidv4\<close> returned.
\<close>

definition joinSession ::
  "string \<Rightarrow> string option \<Rightarrow> string \<Rightarrow> string \<Rightarrow> world \<Rightarrow> message list \<times> world" where
  "joinSession socketId sessionId name participantId w =
     (if sessionId \<noteq> s_id w \<or> \<not> isActive w then ([SocketJoinError ''Invalid session''], w)
      else if participantCount w \<ge> 20 then ([SocketJoinError ''Session is full''], w)
      else
        let ps = AList.update participantId
                   \<lparr>p_id = participantId, p_name = name, p_socketId = socketId\<rparr> (participants w);
            g = graph w;
            g1 = g\<lparr>nodes := AList.update participantId
                     \<lparr>n_id = participantId, n_embedding = zero_embedding, connections = []\<rparr>
                     (nodes g)\<rparr>;
            g2 = (if \<not> identityDeleted w
                  then g1\<lparr>identityMap := AList.update participantId name (identityMap g1)\<rparr>
                  else g1)
        in ([SocketJoined participantId (length ps), EmitParticipantJoined (length ps)],
            w\<lparr>participants := ps, graph := g2,
              sockets := AList.update socketId participantId (sockets w)\<rparr>))"

text \<open>The key of an edge, line 704: \<open>`${participantId}-${targetParticipantId}-${channel}`\<close>.\<close>

definition edgeId :: "string \<Rightarrow> string \<Rightarrow> channel \<Rightarrow> string" where
  "edgeId participantId targetParticipantId c =
     participantId @ ''-'' @ targetParticipantId @ ''-'' @ channel_name c"

text \<open>
  Lines 692-712: the update of the graph by one response of \<open>participantId\<close> for
  \<open>targetParticipantId\<close> on a channel.
\<close>

definition updateGraph :: "string \<Rightarrow> string option \<Rightarrow> channel \<Rightarrow> nat \<Rightarrow> graph \<Rightarrow> graph" where
  "updateGraph participantId target c timestamp g =
     (case (map_of (nodes g) participantId, target) of
        (Some sourceNode, Some targetParticipantId) \<Rightarrow>
          if targetParticipantId = [] then g
          else
            let channelWeights = (case map_of (connections sourceNode) targetParticipantId of
                                    None \<Rightarrow> [] | Some m \<Rightarrow> m);
                currentWeight = (case map_of channelWeights c of None \<Rightarrow> 0 | Some v \<Rightarrow> v);
                sourceNode' = sourceNode\<lparr>connections :=
                   AList.update targetParticipantId
                     (AList.update c (currentWeight + 1) channelWeights)
                     (connections sourceNode)\<rparr>
            in g\<lparr>nodes := AList.update participantId sourceNode' (nodes g),
                 edges := AList.update (edgeId participantId targetParticipantId c)
                            \<lparr>fromNodeId = participantId, toNodeId = targetParticipantId,
                             e_channel = c, weight = currentWeight + 1,
                             e_timestamp = timestamp\<rparr>
                            (edges g)\<rparr>
      | _ \<Rightarrow> g)"

text \<open>
  \<open>submit-response\<close>, lines 670-726. \<open>timestamp\<close> is the value of \<open>Date.now()\<close>.
\<close>

definition submitResponse ::
  "string \<Rightarrow> int \<Rightarrow> string option \<Rightarrow> nat \<Rightarrow> world \<Rightarrow> error + (message list \<times> world)" where
  "submitResponse socketId questionIndex targetParticipantId timestamp w =
     (if \<not> truthy (map_of (sockets w) socketId) \<or> questionIndex \<noteq> currentQuestionIndex w
      then Inr ([], w)
      else
        case (map_of (sockets w) socketId, nth_js (questions w) questionIndex) of
          (Some participantId, Some question) \<Rightarrow>
            let c = q_channel question;
                answers = (case map_of (responses w) questionIndex of None \<Rightarrow> [] | Some m \<Rightarrow> m);
                w1 = w\<lparr>responses := AList.update questionIndex
                          (AList.update participantId
                             \<lparr>r_targetParticipantId = targetParticipantId, r_channel = c,
                              r_timestamp = timestamp\<rparr> answers)
                          (responses w),
                        graph := updateGraph participantId targetParticipantId c timestamp (graph w)\<rparr>
            in Inr ([SocketResponseSubmitted,
                     EmitResponseCountUpdate questionIndex (responseCount w1 questionIndex)
                       (participantCount w1)],
                    checkForAutoAdvance questionIndex w1)
        | _ \<Rightarrow> Inl TypeError)"

text \<open>\<open>disconnect\<close>, lines 728-741: the first participant of the socket is removed.\<close>

definition disconnect :: "string \<Rightarrow> world \<Rightarrow> message list \<times> world" where
  "disconnect socketId w =
     (case find (\<lambda>(k, p). p_socketId p = socketId) (participants w) of
        None \<Rightarrow> ([], w)
      | Some (k, p) \<Rightarrow>
          let ps = AList.delete k (participants w)
          in ([EmitParticipantLeft (length ps)], w\<lparr>participants := ps\<rparr>))"

text \<open>
  A pending timeout fires: it leaves the pending timeouts and its callback runs. A
  handle that is not pending does not fire.
\<close>

definition timeoutFires :: "nat \<Rightarrow> world \<Rightarrow> error + (message list \<times> world)" where
  "timeoutFires handle w =
     (if handle \<in> fst ` set (pendingTimeouts w)
      then advanceToNextQuestion
             (w\<lparr>pendingTimeouts := filter (\<lambda>(h, delay). h \<noteq> handle) (pendingTimeouts w)\<rparr>)
      else Inr ([], w))"

text \<open>The events that change the state: the routes, the socket messages and the timer.\<close>

datatype event =
    CreateSession string "question list"
  | JoinSession string "string option" string string
  | SubmitResponse string int "string option" nat
  | Disconnect string
  | NextQuestion
  | EpochUpdate
  | PauseResume bool
  | EndSession
  | StartQuestions
  | TimeoutFires nat

fun step :: "event \<Rightarrow> world \<Rightarrow> error + (message list \<times> world)" where
  "step (CreateSession sessionId qs) w = Inr (createSession sessionId qs w)"
| "step (JoinSession socketId sessionId name participantId) w =
     Inr (joinSession socketId sessionId name participantId w)"
| "step (SubmitResponse socketId questionIndex target timestamp) w =
     submitResponse socketId questionIndex target timestamp w"
| "step (Disconnect socketId) w = Inr (disconnect socketId w)"
| "step NextQuestion w = nextQuestion w"
| "step EpochUpdate w = Inr (epochUpdate w)"
| "step (PauseResume pause) w = Inr (pauseResume pause w)"
| "step EndSession w = Inr (endSession w)"
| "step StartQuestions w = startQuestions w"
| "step (TimeoutFires handle) w = timeoutFires handle w"

text \<open>A sequence of events, from left to right; a handler that throws ends the run.\<close>

fun run :: "event list \<Rightarrow> world \<Rightarrow> error + world" where
  "run [] w = Inr w"
| "run (e # es) w = (case step e w of Inl err \<Rightarrow> Inl err | Inr (out, w') \<Rightarrow> run es w')"

text \<open>The states that the process can be in.\<close>

inductive reachable :: "world \<Rightarrow> bool" where
  reachable_initial: "reachable initial_world"
| reachable_step: "reachable w \<Longrightarrow> step e w = Inr (out, w') \<Longrightarrow> reachable w'"

section \<open>Identity suppression\<close>



section \<open>Invariants\<close>

text \<open>
  The weight that the adjacency map of \<open>source\<close> stores for \<open>target\<close> on a channel,
  when there is one.
\<close>

definition adjacency_weight :: "'a graph_scheme \<Rightarrow> string \<Rightarrow> string \<Rightarrow> channel \<Rightarrow> nat option" where
  "adjacency_weight g source target c =
     (case map_of (nodes g) source of
        None \<Rightarrow> None
      | Some sourceNode \<Rightarrow>
          (case map_of (connections sourceNode) target of
             None \<Rightarrow> None
           | Some channelWeights \<Rightarrow> map_of channelWeights c))"

text \<open>
  The invariant of the edge index: the weight of every edge record is the weight that
  the adjacency map of its source stores for its target and channel.
\<close>

definition edge_weights_match :: "'a graph_scheme \<Rightarrow> bool" where
  "edge_weights_match g =
     list_all (\<lambda>(k, e). adjacency_weight g (fromNodeId e) (toNodeId e) (e_channel e)
                          = Some (weight e))
              (edges g)"

text \<open>Every edge record is stored under the key made of its own fields.\<close>

definition edge_keys_match :: "'a graph_scheme \<Rightarrow> bool" where
  "edge_keys_match g =
     list_all (\<lambda>(k, e). k = edgeId (fromNodeId e) (toNodeId e) (e_channel e)) (edges g)"

text \<open>
  The edge index is sound: the keys are distinct (it is a \<open>Map\<close>), every record is
  stored under its own key, and every weight matches the adjacency maps.
\<close>

definition edge_index_sound :: "'a graph_scheme \<Rightarrow> bool" where
  "edge_index_sound g \<longleftrightarrow>
     edge_weights_match g \<and> edge_keys_match g \<and> distinct (map fst (edges g))"

text \<open>
  The timer discipline: nothing is pending, or exactly one timeout of 5000 ms is pending,
  \<open>session.autoAdvanceTimer\<close> is its handle and the session is not paused; and the handle
  in \<open>session.autoAdvanceTimer\<close> is one that has been issued.
\<close>

definition timers_ok :: "world \<Rightarrow> bool" where
  "timers_ok w =
     (case autoAdvanceTimer w of
        None \<Rightarrow> pendingTimeouts w = []
      | Some h \<Rightarrow>
          h < timeoutSeq w \<and>
          (pendingTimeouts w = [] \<or> (pendingTimeouts w = [(h, 5000)] \<and> \<not> isPaused w)))"

text \<open>
  A \<open>Map\<close> has no key twice. The lists that stand for the maps of the session keep
  their keys distinct, so that the length of a list is the \<open>size\<close> of the map.
\<close>

definition maps_distinct :: "world \<Rightarrow> bool" where
  "maps_distinct w \<longleftrightarrow>
     distinct (map fst (participants w))
     \<and> distinct (map fst (responses w))
     \<and> list_all (\<lambda>(q, answers). distinct (map fst answers)) (responses w)
     \<and> distinct (map fst (nodes (graph w)))
     \<and> distinct (map fst (edges (graph w)))
     \<and> distinct (map fst (identityMap (graph w)))
     \<and> distinct (map fst (sockets w))"

text \<open>The cursor is -1 or the index of a question.\<close>

definition cursor_in_range :: "'a session_scheme \<Rightarrow> bool" where
  "cursor_in_range s \<longleftrightarrow>
     currentQuestionIndex s = -1
     \<or> (0 \<le> currentQuestionIndex s \<and> currentQuestionIndex s < int (length (questions s)))"

section \<open>Example states and runs\<close>

text \<open>A graph of two nodes in which \<open>a\<close> has nominated \<open>b\<close> twice on two channels.\<close>

definition example_graph :: graph where
  "example_graph =
     \<lparr>nodes = [(''a'', \<lparr>n_id = ''a'', n_embedding = zero_embedding,
                         connections = [(''b'', [(Technical, 2), (Social, 1)])]\<rparr>),
               (''b'', \<lparr>n_id = ''b'', n_embedding = zero_embedding, connections = []\<rparr>)],
      edges = [], identityMap = []\<rparr>"

definition two_questions :: "question list" where
  "two_questions = [\<lparr>q_text = ''Q0'', q_channel = Technical\<rparr>,
                    \<lparr>q_text = ''Q1'', q_channel = Social\<rparr>]"

text \<open>A session with two participants \<open>A\<close> and \<open>B\<close>, on its first question.\<close>

definition session_start :: "event list" where
  "session_start =
     [CreateSession ''s1'' two_questions,
      JoinSession ''sockA'' (Some ''s1'') ''Ann'' ''A'',
      JoinSession ''sockB'' (Some ''s1'') ''Bob'' ''B'',
      StartQuestions]"

text \<open>The same session after \<open>A\<close> has nominated \<open>B\<close>.\<close>

definition first_session :: "event list" where
  "first_session = session_start @ [SubmitResponse ''sockA'' 0 (Some ''B'') 100]"

text \<open>The state in which a run ends, when no handler threw.\<close>

definition final :: "error + world \<Rightarrow> world" where
  "final result = projr result"

text \<open>A session that was created and ended: no session is active.\<close>

definition ended_session :: "event list" where
  "ended_session = [CreateSession ''s1'' two_questions, EndSession]"

text \<open>A session that was created and paused.\<close>

definition paused_session :: "event list" where
  "paused_session = [CreateSession ''s1'' two_questions, PauseResume True]"

text \<open>
  Both participants answer the first question, which arms the timer with handle 0, and a
  third participant joins before the timer fires.
\<close>

definition late_joiner :: "event list" where
  "late_joiner =
     session_start @
     [SubmitResponse ''sockA'' 0 (Some ''B'') 100,
      SubmitResponse ''sockB'' 0 (Some ''A'') 101,
      JoinSession ''sockC'' (Some ''s1'') ''Cid'' ''C'']"

text \<open>The first question is open and the session is paused.\<close>

definition paused_question :: "event list" where
  "paused_question = session_start @ [PauseResume True]"



chapter \<open>Properties\<close>

section \<open>In-degree and the embedding vector\<close>

lemma embedding_total_add_channel:
  "embedding_total (add_channel c w e) = embedding_total e + w"
  by (cases c) (simp_all add: embedding_total_def)

lemma embedding_total_add_weights:
  "embedding_total (add_weights e cw) = sum_weights (embedding_total e) cw"
  unfolding add_weights_def sum_weights_def
  by (induction cw arbitrary: e) (auto simp: embedding_total_add_channel)

lemma embedding_total_incoming:
  "embedding_total
     (foldl (\<lambda>emb (sourceId, sourceNode).
               case map_of (connections sourceNode) p of
                 None \<Rightarrow> emb
               | Some channelWeights \<Rightarrow> add_weights emb channelWeights) e ns)
   = foldl (\<lambda>acc (sourceId, sourceNode).
               case map_of (connections sourceNode) p of
                 None \<Rightarrow> acc
               | Some channelWeights \<Rightarrow> sum_weights acc channelWeights) (embedding_total e) ns"
proof (induction ns arbitrary: e)
  case Nil
  show ?case by simp
next
  case (Cons sn ns)
  obtain sourceId sourceNode where sn: "sn = (sourceId, sourceNode)"
    by (cases sn)
  show ?case
  proof (cases "map_of (connections sourceNode) p")
    case None
    then show ?thesis using Cons.IH [of e] by (simp add: sn)
  next
    case (Some cw)
    then show ?thesis
      using Cons.IH [of "add_weights e cw"]
      by (simp add: sn embedding_total_add_weights)
  qed
qed

text \<open>
  C8. For every node of the graph, the \<open>inDegree\<close> that \<open>calculateCentrality\<close> returns is
  the sum over the four channels of the raw vector that \<open>calculateEmbeddingVector\<close>
  returns for that node.
\<close>

theorem inDegree_eq_embedding_total:
  assumes "map_of (nodes g) participantId = Some n"
  shows "inDegree (calculateCentrality g participantId)
         = embedding_total (calculateEmbeddingVector g participantId)"
proof -
  have "embedding_total zero_embedding = 0"
    by (simp add: embedding_total_def zero_embedding_def)
  then show ?thesis
    using assms
    by (simp add: calculateCentrality_def calculateEmbeddingVector_def Let_def
        embedding_total_incoming)
qed

theorem inDegree_eq_embedding_total_witness:
  "map_of (nodes example_graph) ''b''
     = Some \<lparr>n_id = ''b'', n_embedding = zero_embedding, connections = []\<rparr>
   \<and> inDegree (calculateCentrality example_graph ''b'') = 3
   \<and> embedding_total (calculateEmbeddingVector example_graph ''b'') = 3"
proof -
  have n: "map_of (nodes example_graph) ''b''
      = Some \<lparr>n_id = ''b'', n_embedding = zero_embedding, connections = []\<rparr>"
    by (simp add: example_graph_def)
  have "embedding_total (calculateEmbeddingVector example_graph ''b'') = 3"
    by (simp add: calculateEmbeddingVector_def example_graph_def add_weights_def
        zero_embedding_def embedding_total_def)
  with n inDegree_eq_embedding_total [OF n] show ?thesis
    by simp
qed

section \<open>Color Blender\<close>

lemma base_colors:
  "hexToRgb (channel_color Cognitive) = \<lparr>rgb_r = 58, rgb_g = 123, rgb_b = 255\<rparr>"
  "hexToRgb (channel_color Creative) = \<lparr>rgb_r = 139, rgb_g = 92, rgb_b = 246\<rparr>"
  "hexToRgb (channel_color Technical) = \<lparr>rgb_r = 34, rgb_g = 197, rgb_b = 94\<rparr>"
  "hexToRgb (channel_color Social) = \<lparr>rgb_r = 245, rgb_g = 158, rgb_b = 11\<rparr>"
  by (simp_all add: hexToRgb_def parseHexPair_def hexDigit_def)

lemma gray_components:
  "hexToRgb ''#888888'' = \<lparr>rgb_r = 136, rgb_g = 136, rgb_b = 136\<rparr>"
  by (simp add: hexToRgb_def parseHexPair_def hexDigit_def)

lemma components_in_range:
  "0 \<le> rgb_r (components (generateNodeColor fl e)) \<and> rgb_r (components (generateNodeColor fl e)) \<le> 255 \<and>
   0 \<le> rgb_g (components (generateNodeColor fl e)) \<and> rgb_g (components (generateNodeColor fl e)) \<le> 255 \<and>
   0 \<le> rgb_b (components (generateNodeColor fl e)) \<and> rgb_b (components (generateNodeColor fl e)) \<le> 255"
  by (auto simp: generateNodeColor_def Let_def gray_components split: prod.splits option.splits)

lemma total_weight_eq:
  "foldl (\<lambda>sum val. sum + val) 0 (map snd (entries e)) = embedding_total e"
  by (simp add: entries_def embedding_total_def)

lemma gray_when_zero:
  "embedding_total e = 0 \<Longrightarrow> generateNodeColor fl e = Hex ''#888888''"
  by (simp add: generateNodeColor_def total_weight_eq del: foldl.simps)

lemma fl_bounds:
  assumes "rounds_to_nearest fl" and "0 \<le> x" and "u = 1 / 2 ^ 53"
  shows "x * (1 - u) \<le> fl x" and "fl x \<le> x * (1 + u)"
proof -
  have a: "\<bar>fl x - x\<bar> \<le> \<bar>x\<bar> / 2 ^ 53"
    using assms(1) unfolding rounds_to_nearest_def by blast
  have b: "\<bar>x\<bar> / 2 ^ 53 = x * u"
    by (simp add: assms(3) abs_of_nonneg [OF assms(2)])
  have c: "fl x - x \<le> x * u" "x - fl x \<le> x * u"
    using a unfolding b by linarith+
  have d: "x * (1 - u) = x - x * u" "x * (1 + u) = x + x * u"
    by (simp_all add: algebra_simps)
  show "x * (1 - u) \<le> fl x"
    unfolding d using c by linarith
  show "fl x \<le> x * (1 + u)"
    unfolding d using c by linarith
qed

lemma strength_single:
  assumes "rounds_to_nearest fl"
  shows "min (fl (8 / 10)) (fl 1) = fl (8 / 10)"
proof -
  define u :: rat where "u = 1 / 2 ^ 53"
  have u: "0 \<le> u" "u \<le> 1 / 1000000" by (simp_all add: u_def)
  have "fl (8 / 10) \<le> (8 / 10) * (1 + u)"
    using fl_bounds(2) [OF assms _ u_def, of "8 / 10"] by simp
  moreover have "1 * (1 - u) \<le> fl 1"
    using fl_bounds(1) [OF assms _ u_def, of 1] by simp
  ultimately have "fl (8 / 10) \<le> fl 1"
    using u by simp
  then show ?thesis by simp
qed

lemma scaled_close:
  assumes fl: "rounds_to_nearest fl" and c: "0 \<le> c" "c \<le> 255"
  shows "\<bar>fl (of_int c * fl (8 / 10)) - 8 / 10 * of_int c\<bar> \<le> 1 / 1000"
proof -
  define k :: rat where "k = of_int c"
  define u :: rat where "u = 1 / 2 ^ 53"
  define f where "f = fl (8 / 10)"
  define p where "p = fl (k * f)"
  have k: "0 \<le> k" "k \<le> 255" using c by (simp_all add: k_def)
  have u: "0 \<le> u" "u \<le> 1 / 1000000" by (simp_all add: u_def)
  have f: "8 / 10 * (1 - u) \<le> f" "f \<le> 8 / 10 * (1 + u)"
    using fl_bounds [OF fl _ u_def, of "8 / 10"] by (simp_all add: f_def)
  have f0: "0 \<le> f" "f \<le> 1" using f u by simp_all
  have kf: "0 \<le> k * f" "k * f \<le> 255"
    using k f0 by (simp, metis mult_mono mult.right_neutral zero_le_one order_trans)
  have p: "k * f * (1 - u) \<le> p" "p \<le> k * f * (1 + u)"
    using fl_bounds [OF fl kf(1) u_def] by (simp_all add: p_def)
  have kfu: "0 \<le> k * f * u" "k * f * u \<le> 255 / 1000000"
  proof -
    show "0 \<le> k * f * u" using kf(1) u(1) by simp
    have "k * f * u \<le> 255 * (1 / 1000000)"
      using kf u by (intro mult_mono) simp_all
    then show "k * f * u \<le> 255 / 1000000" by simp
  qed
  have ku: "0 \<le> k * u" "k * u \<le> 255 / 1000000"
  proof -
    show "0 \<le> k * u" using k(1) u(1) by simp
    have "k * u \<le> 255 * (1 / 1000000)"
      using k u by (intro mult_mono) simp_all
    then show "k * u \<le> 255 / 1000000" by simp
  qed
  have lo1: "k * (8 / 10 * (1 - u)) \<le> k * f"
    using f(1) k(1) by (rule mult_left_mono)
  have hi1: "k * f \<le> k * (8 / 10 * (1 + u))"
    using f(2) k(1) by (rule mult_left_mono)
  have "p - 8 / 10 * k \<le> 1 / 1000"
    using p(2) hi1 kfu ku by (simp only: algebra_simps; linarith)
  moreover have "8 / 10 * k - p \<le> 1 / 1000"
    using p(1) lo1 kfu ku by (simp only: algebra_simps; linarith)
  ultimately show ?thesis
    unfolding k_def [symmetric] p_def f_def abs_le_iff by linarith
qed

lemma js_round_near:
  assumes "\<bar>x - v\<bar> \<le> 1 / 1000" and "of_int n - 4 / 10 \<le> v" and "v \<le> of_int n + 4 / 10"
  shows "js_round x = n"
  unfolding js_round_def
proof (rule floor_unique)
  show "of_int n \<le> x + 1 / 2" using assms unfolding abs_le_iff by linarith
  show "x + 1 / 2 < of_int n + 1" using assms unfolding abs_le_iff by linarith
qed

lemma round_scaled:
  assumes fl: "rounds_to_nearest fl" and c: "0 \<le> c" "c \<le> 255"
    and n: "of_int n - 4 / 10 \<le> 8 / 10 * (of_int c :: rat)" "8 / 10 * (of_int c :: rat) \<le> of_int n + 4 / 10"
  shows "js_round (fl (of_int c * fl (8 / 10))) = n"
  using js_round_near [OF scaled_close [OF fl c] n] .

lemma single_dominant:
  assumes "rounds_to_nearest fl" and "0 < w"
    and "dominant (entries e) = (Some c, w)" and "embedding_total e = w"
    and "\<And>start. foldl (add_secondary fl c w) start (entries e) = start"
    and "hexToRgb (channel_color c) = \<lparr>rgb_r = rv, rgb_g = gv, rgb_b = bv\<rparr>"
  shows "generateNodeColor fl e =
           Rgb (min 255 (max 0 (js_round (fl (of_int rv * fl (8 / 10))))))
               (min 255 (max 0 (js_round (fl (of_int gv * fl (8 / 10))))))
               (min 255 (max 0 (js_round (fl (of_int bv * fl (8 / 10))))))"
proof -
  have "(of_nat w :: rat) / of_nat w = 1" using assms(2) by simp
  then show ?thesis
    using assms(2) strength_single [OF assms(1)]
    by (simp add: generateNodeColor_def Let_def total_weight_eq assms(3,4,5,6) del: foldl.simps)
qed

lemma single_channel_color:
  assumes fl: "rounds_to_nearest fl" and pos: "0 < channel_weight e c"
    and others: "\<forall>c'. c' \<noteq> c \<longrightarrow> channel_weight e c' = 0"
  shows "generateNodeColor fl e =
           Rgb (js_round (8 / 10 * of_int (rgb_r (hexToRgb (channel_color c)))))
               (js_round (8 / 10 * of_int (rgb_g (hexToRgb (channel_color c)))))
               (js_round (8 / 10 * of_int (rgb_b (hexToRgb (channel_color c)))))
         \<and> components (generateNodeColor fl e) \<noteq> hexToRgb (channel_color c)"
proof -
  have z: "c \<noteq> Cognitive \<Longrightarrow> cognitive e = 0" "c \<noteq> Creative \<Longrightarrow> creative e = 0"
    "c \<noteq> Technical \<Longrightarrow> technical e = 0" "c \<noteq> Social \<Longrightarrow> social e = 0"
    using others channel_weight.simps by metis+
  have ex: "js_round (8 / 10 * of_int k) = n"
    if "of_int n - 4 / 10 \<le> 8 / 10 * (of_int k :: rat)" "8 / 10 * (of_int k :: rat) \<le> of_int n + 4 / 10" for k n
    using js_round_near [of "8 / 10 * of_int k" "8 / 10 * of_int k" n] that by simp
  show ?thesis
  proof (cases c)
    case Cognitive
    have v: "generateNodeColor fl e = Rgb 46 98 204"
      using single_dominant [OF fl _ _ _ _ base_colors(1), of "cognitive e" e] pos z
        round_scaled [OF fl, of 58 46] round_scaled [OF fl, of 123 98] round_scaled [OF fl, of 255 204]
      by (simp add: Cognitive dominant_def entries_def embedding_total_def add_secondary_def base_colors)
    moreover have "js_round (8 / 10 * of_int 58) = 46" "js_round (8 / 10 * of_int 123) = 98"
      "js_round (8 / 10 * of_int 255) = 204"
      by (rule ex; simp)+
    ultimately show ?thesis
      unfolding Cognitive base_colors using v by simp
  next
    case Creative
    have v: "generateNodeColor fl e = Rgb 111 74 197"
      using single_dominant [OF fl _ _ _ _ base_colors(2), of "creative e" e] pos z
        round_scaled [OF fl, of 139 111] round_scaled [OF fl, of 92 74] round_scaled [OF fl, of 246 197]
      by (simp add: Creative dominant_def entries_def embedding_total_def add_secondary_def base_colors)
    moreover have "js_round (8 / 10 * of_int 139) = 111" "js_round (8 / 10 * of_int 92) = 74"
      "js_round (8 / 10 * of_int 246) = 197"
      by (rule ex; simp)+
    ultimately show ?thesis
      unfolding Creative base_colors using v by simp
  next
    case Technical
    have v: "generateNodeColor fl e = Rgb 27 158 75"
      using single_dominant [OF fl _ _ _ _ base_colors(3), of "technical e" e] pos z
        round_scaled [OF fl, of 34 27] round_scaled [OF fl, of 197 158] round_scaled [OF fl, of 94 75]
      by (simp add: Technical dominant_def entries_def embedding_total_def add_secondary_def base_colors)
    moreover have "js_round (8 / 10 * of_int 34) = 27" "js_round (8 / 10 * of_int 197) = 158"
      "js_round (8 / 10 * of_int 94) = 75"
      by (rule ex; simp)+
    ultimately show ?thesis
      unfolding Technical base_colors using v by simp
  next
    case Social
    have v: "generateNodeColor fl e = Rgb 196 126 9"
      using single_dominant [OF fl _ _ _ _ base_colors(4), of "social e" e] pos z
        round_scaled [OF fl, of 245 196] round_scaled [OF fl, of 158 126] round_scaled [OF fl, of 11 9]
      by (simp add: Social dominant_def entries_def embedding_total_def add_secondary_def base_colors)
    moreover have "js_round (8 / 10 * of_int 245) = 196" "js_round (8 / 10 * of_int 158) = 126"
      "js_round (8 / 10 * of_int 11) = 9"
      by (rule ex; simp)+
    ultimately show ?thesis
      unfolding Social base_colors using v by simp
  qed
qed

text \<open>
  C9. The components of the colour that \<open>generateNodeColor\<close> returns are integers between
  0 and 255; when the total weight is zero the colour is the fixed gray \<open>#888888\<close>; and
  when exactly one channel has a non-zero weight the colour is that channel's base colour
  with each component multiplied by 0.8 and rounded, which is not the base colour itself.
  The last part holds for every rounding \<open>fl\<close> of relative error at most \<open>2^-53\<close>, the
  double arithmetic of the source among them.
\<close>

theorem generateNodeColor_range_gray_single:
  "(0 \<le> rgb_r (components (generateNodeColor fl e)) \<and> rgb_r (components (generateNodeColor fl e)) \<le> 255 \<and>
    0 \<le> rgb_g (components (generateNodeColor fl e)) \<and> rgb_g (components (generateNodeColor fl e)) \<le> 255 \<and>
    0 \<le> rgb_b (components (generateNodeColor fl e)) \<and> rgb_b (components (generateNodeColor fl e)) \<le> 255)
   \<and> (embedding_total e = 0 \<longrightarrow> generateNodeColor fl e = Hex ''#888888'')
   \<and> (rounds_to_nearest fl \<and> 0 < channel_weight e c \<and> (\<forall>c'. c' \<noteq> c \<longrightarrow> channel_weight e c' = 0) \<longrightarrow>
        generateNodeColor fl e =
          Rgb (js_round (8 / 10 * of_int (rgb_r (hexToRgb (channel_color c)))))
              (js_round (8 / 10 * of_int (rgb_g (hexToRgb (channel_color c)))))
              (js_round (8 / 10 * of_int (rgb_b (hexToRgb (channel_color c)))))
        \<and> components (generateNodeColor fl e) \<noteq> hexToRgb (channel_color c))"
  using components_in_range [of fl e] gray_when_zero [of e fl] single_channel_color [of fl e c]
  by blast

theorem generateNodeColor_range_gray_single_witness:
  "rounds_to_nearest (\<lambda>x. x)
   \<and> 0 < channel_weight \<lparr>cognitive = 0, creative = 3, technical = 0, social = 0\<rparr> Creative
   \<and> channel_weight \<lparr>cognitive = 0, creative = 3, technical = 0, social = 0\<rparr> Cognitive = 0
   \<and> channel_weight \<lparr>cognitive = 0, creative = 3, technical = 0, social = 0\<rparr> Technical = 0
   \<and> channel_weight \<lparr>cognitive = 0, creative = 3, technical = 0, social = 0\<rparr> Social = 0
   \<and> generateNodeColor (\<lambda>x. x) \<lparr>cognitive = 0, creative = 3, technical = 0, social = 0\<rparr>
       = Rgb 111 74 197
   \<and> embedding_total zero_embedding = 0
   \<and> generateNodeColor (\<lambda>x. x) zero_embedding = Hex ''#888888''"
proof -
  let ?e = "\<lparr>cognitive = 0, creative = 3, technical = 0, social = 0\<rparr>"
  have fl: "rounds_to_nearest (\<lambda>x. x)"
    by (simp add: rounds_to_nearest_def)
  have others: "\<forall>c'. c' \<noteq> Creative \<longrightarrow> channel_weight ?e c' = 0"
  proof (intro allI impI)
    fix c' :: channel
    assume "c' \<noteq> Creative"
    then show "channel_weight ?e c' = 0" by (cases c') simp_all
  qed
  have pos: "0 < channel_weight ?e Creative" by simp
  have z: "embedding_total zero_embedding = 0"
    by (simp add: embedding_total_def zero_embedding_def)
  have "generateNodeColor (\<lambda>x. x) ?e =
          Rgb (js_round (8 / 10 * of_int (rgb_r (hexToRgb (channel_color Creative)))))
              (js_round (8 / 10 * of_int (rgb_g (hexToRgb (channel_color Creative)))))
              (js_round (8 / 10 * of_int (rgb_b (hexToRgb (channel_color Creative)))))"
    using generateNodeColor_range_gray_single [of "\<lambda>x. x" ?e Creative] fl pos others
    by blast
  moreover have "js_round (8 / 10 * 139) = 111" "js_round (8 / 10 * 92) = 74"
    "js_round (8 / 10 * 246) = 197"
    unfolding js_round_def by (rule floor_unique; simp)+
  ultimately have "generateNodeColor (\<lambda>x. x) ?e = Rgb 111 74 197"
    unfolding base_colors by simp
  moreover have "generateNodeColor (\<lambda>x. x) zero_embedding = Hex ''#888888''"
    using generateNodeColor_range_gray_single [of "\<lambda>x. x" zero_embedding Creative] z
    by blast
  ultimately show ?thesis
    using fl z by simp
qed

section \<open>Runs and reachable states\<close>

lemma run_append:
  "run (es @ es') w = (case run es w of Inl err \<Rightarrow> Inl err | Inr w' \<Rightarrow> run es' w')"
  by (induction es arbitrary: w) (auto split: sum.splits)

lemma reachable_run:
  "reachable w \<Longrightarrow> run es w = Inr w' \<Longrightarrow> reachable w'"
proof (induction es arbitrary: w)
  case Nil
  then show ?case by simp
next
  case (Cons e es)
  then show ?case
    by (auto split: sum.splits intro: reachable_step)
qed

lemma reachable_final:
  "\<not> isl (run es initial_world) \<Longrightarrow> reachable (final (run es initial_world))"
  by (cases "run es initial_world")
     (auto simp: final_def intro: reachable_run [OF reachable_initial])

section \<open>The handlers\<close>

lemma checkForAutoAdvance_fields:
  "graph (checkForAutoAdvance q w) = graph w"
  "responses (checkForAutoAdvance q w) = responses w"
  "participants (checkForAutoAdvance q w) = participants w"
  "questions (checkForAutoAdvance q w) = questions w"
  "currentQuestionIndex (checkForAutoAdvance q w) = currentQuestionIndex w"
  "epochCount (checkForAutoAdvance q w) = epochCount w"
  "identityDeleted (checkForAutoAdvance q w) = identityDeleted w"
  "isPaused (checkForAutoAdvance q w) = isPaused w"
  "isActive (checkForAutoAdvance q w) = isActive w"
  "s_id (checkForAutoAdvance q w) = s_id w"
  "sockets (checkForAutoAdvance q w) = sockets w"
  by (simp_all add: checkForAutoAdvance_def setAutoAdvanceTimeout_def clearTimeout_def)

lemma submitResponse_accepted:
  assumes "map_of (sockets w) sock = Some p" and "p \<noteq> []"
    and "nth_js (questions w) (currentQuestionIndex w) = Some qu"
  shows "submitResponse sock (currentQuestionIndex w) t ts w =
           Inr ([SocketResponseSubmitted,
                 EmitResponseCountUpdate (currentQuestionIndex w)
                   (length (AList.update p
                      \<lparr>r_targetParticipantId = t, r_channel = q_channel qu, r_timestamp = ts\<rparr>
                      (case map_of (responses w) (currentQuestionIndex w) of
                         None \<Rightarrow> [] | Some m \<Rightarrow> m)))
                   (participantCount w)],
                checkForAutoAdvance (currentQuestionIndex w)
                  (w\<lparr>responses := AList.update (currentQuestionIndex w)
                        (AList.update p
                           \<lparr>r_targetParticipantId = t, r_channel = q_channel qu, r_timestamp = ts\<rparr>
                           (case map_of (responses w) (currentQuestionIndex w) of
                              None \<Rightarrow> [] | Some m \<Rightarrow> m))
                        (responses w),
                      graph := updateGraph p t (q_channel qu) ts (graph w)\<rparr>))"
  using assms
  by (simp add: submitResponse_def Let_def responseCount_def participantCount_def update_conv')

lemma graph_submitResponse:
  assumes "submitResponse sock q t ts w = Inr (out, w')"
  shows "graph w' = graph w \<or> (\<exists>p c. graph w' = updateGraph p t c ts (graph w))"
proof (cases "\<not> truthy (map_of (sockets w) sock) \<or> q \<noteq> currentQuestionIndex w")
  case True
  then have "w' = w" using assms by (auto simp: submitResponse_def)
  then show ?thesis by simp
next
  case False
  then obtain p qu where "map_of (sockets w) sock = Some p" "nth_js (questions w) q = Some qu"
    using assms by (auto simp: submitResponse_def split: option.splits)
  then have "graph w' = updateGraph p t (q_channel qu) ts (graph w)"
    using assms False by (auto simp: checkForAutoAdvance_fields submitResponse_def Let_def)
  then show ?thesis by blast
qed

lemma advanceToNextQuestion_cases:
  assumes "advanceToNextQuestion w = Inr (out, w')"
  shows "w' = w \<or>
         w' = w\<lparr>currentQuestionIndex := currentQuestionIndex w + 1,
                 epochCount := epochCount w + 1\<rparr>"
  using assms
  by (auto simp: advanceToNextQuestion_def Let_def split: if_splits option.splits)

lemma set_update_subset:
  "distinct (map fst al) \<Longrightarrow> set (AList.update k v al) \<subseteq> insert (k, v) {x \<in> set al. fst x \<noteq> k}"
  by (induction al) (auto simp: image_iff)

lemma list_all_update:
  "list_all P al \<Longrightarrow> P (k, v) \<Longrightarrow> list_all P (AList.update k v al)"
  by (induction al) auto

lemma adjacency_weight_updateGraph:
  assumes "map_of (nodes g) p = Some n" and "t \<noteq> []"
  shows "adjacency_weight (updateGraph p (Some t) c ts g) s' t' c' =
           (if s' = p \<and> t' = t \<and> c' = c
            then Some (Suc (case adjacency_weight g p t c of None \<Rightarrow> 0 | Some v \<Rightarrow> v))
            else adjacency_weight g s' t' c')"
  using assms
  by (auto simp: updateGraph_def adjacency_weight_def Let_def update_conv' split: option.splits)

lemma edges_updateGraph:
  assumes "map_of (nodes g) p = Some n" and "t \<noteq> []"
  shows "edges (updateGraph p (Some t) c ts g) =
           AList.update (edgeId p t c)
             \<lparr>fromNodeId = p, toNodeId = t, e_channel = c,
              weight = Suc (case adjacency_weight g p t c of None \<Rightarrow> 0 | Some v \<Rightarrow> v),
              e_timestamp = ts\<rparr> (edges g)"
  using assms
  by (auto simp: updateGraph_def adjacency_weight_def Let_def split: option.splits)

lemma updateGraph_unchanged:
  "map_of (nodes g) p = None \<or> \<not> truthy t \<Longrightarrow> updateGraph p t c ts g = g"
  by (cases t) (auto simp: updateGraph_def split: option.splits)

lemma node_kept_updateGraph:
  assumes "map_of (nodes g) p = Some n"
  shows "\<exists>n'. map_of (nodes (updateGraph p t c ts g)) p = Some n'"
  using assms
  by (cases t) (auto simp: updateGraph_def Let_def update_conv')

lemma distinct_nodes_updateGraph:
  "distinct (map fst (nodes g)) \<Longrightarrow> distinct (map fst (nodes (updateGraph p t c ts g)))"
  by (cases t) (auto simp: updateGraph_def Let_def distinct_update split: option.splits)

lemma distinct_edges_updateGraph:
  "distinct (map fst (edges g)) \<Longrightarrow> distinct (map fst (edges (updateGraph p t c ts g)))"
  by (cases t) (auto simp: updateGraph_def Let_def distinct_update split: option.splits)

lemma identityMap_updateGraph:
  "identityMap (updateGraph p t c ts g) = identityMap g"
  by (cases t) (auto simp: updateGraph_def Let_def split: option.splits)

section \<open>Session reset\<close>

lemma endSession_clears:
  assumes "isActive w"
  shows "participantCount (snd (endSession w)) = 0"
    and "nodes (graph (snd (endSession w))) = []"
    and "edges (graph (snd (endSession w))) = []"
    and "identityMap (graph (snd (endSession w))) = []"
    and "responses (snd (endSession w)) = []"
    and "currentQuestionIndex (snd (endSession w)) = -1"
    and "epochCount (snd (endSession w)) = 0"
    and "\<not> identityDeleted (snd (endSession w))"
  using assms by (simp_all add: endSession_def participantCount_def clearTimeout_def)

lemma createSession_clears_but_edges:
  shows "participantCount (snd (createSession sid qs w)) = 0"
    and "nodes (graph (snd (createSession sid qs w))) = []"
    and "edges (graph (snd (createSession sid qs w))) = edges (graph w)"
    and "identityMap (graph (snd (createSession sid qs w))) = []"
    and "responses (snd (createSession sid qs w)) = []"
    and "currentQuestionIndex (snd (createSession sid qs w)) = -1"
    and "epochCount (snd (createSession sid qs w)) = 0"
    and "\<not> identityDeleted (snd (createSession sid qs w))"
  by (simp_all add: createSession_def participantCount_def)

text \<open>
  C5. After \<open>POST /api/session/end\<close> on an active session everything is cleared
  (\<open>endSession_clears\<close>). \<open>POST /api/session/create\<close> clears the participants, the
  responses, the nodes and the identity map and resets the cursor, the epoch and the
  suppression flag, but it has no \<open>session.graph.edges.clear()\<close>: a session created
  after one in which \<open>A\<close> nominated \<open>B\<close> starts with no node and one edge.
\<close>

theorem createSession_leaves_edges:
  "\<not> isl (run (first_session @ [CreateSession ''s2'' two_questions]) initial_world)
   \<and> participantCount (final (run (first_session @ [CreateSession ''s2'' two_questions]) initial_world)) = 0
   \<and> length (nodes (graph (final (run (first_session @ [CreateSession ''s2'' two_questions]) initial_world)))) = 0
   \<and> length (edges (graph (final (run (first_session @ [CreateSession ''s2'' two_questions]) initial_world)))) = 1
   \<and> length (edges (graph (final (run (first_session @ [EndSession]) initial_world)))) = 0"
  by code_simp

section \<open>The edge index and the adjacency maps\<close>

lemma updateGraph_preserves:
  assumes "edge_weights_match g" and "edge_keys_match g" and d: "distinct (map fst (edges g))"
  shows "edge_weights_match (updateGraph p t c ts g) \<and> edge_keys_match (updateGraph p t c ts g)
         \<and> distinct (map fst (edges (updateGraph p t c ts g)))"
proof (cases "map_of (nodes g) p = None \<or> \<not> truthy t")
  case True
  then show ?thesis using assms by (simp add: updateGraph_unchanged)
next
  case False
  then obtain n tgt where n: "map_of (nodes g) p = Some n" and t: "t = Some tgt" "tgt \<noteq> []"
    by (cases t) auto
  let ?g' = "updateGraph p (Some tgt) c ts g"
  let ?e = "\<lparr>fromNodeId = p, toNodeId = tgt, e_channel = c,
              weight = Suc (case adjacency_weight g p tgt c of None \<Rightarrow> 0 | Some v \<Rightarrow> v),
              e_timestamp = ts\<rparr>"
  have E: "edges ?g' = AList.update (edgeId p tgt c) ?e (edges g)"
    by (rule edges_updateGraph [OF n t(2)])
  have "adjacency_weight ?g' (fromNodeId e) (toNodeId e) (e_channel e) = Some (weight e)
        \<and> k = edgeId (fromNodeId e) (toNodeId e) (e_channel e)"
    if "(k, e) \<in> set (edges ?g')" for k e
  proof -
    from that E set_update_subset [OF d, of "edgeId p tgt c" ?e]
    consider "k = edgeId p tgt c" "e = ?e" | "(k, e) \<in> set (edges g)" "k \<noteq> edgeId p tgt c"
      by auto
    then show ?thesis
    proof cases
      case 1
      then show ?thesis
        by (simp add: adjacency_weight_updateGraph [OF n t(2)])
    next
      case 2
      from 2(1) assms have old: "adjacency_weight g (fromNodeId e) (toNodeId e) (e_channel e) = Some (weight e)"
        "k = edgeId (fromNodeId e) (toNodeId e) (e_channel e)"
        by (auto simp: edge_weights_match_def edge_keys_match_def list_all_iff)
      with 2(2) have "\<not> (fromNodeId e = p \<and> toNodeId e = tgt \<and> e_channel e = c)"
        by auto
      with old show ?thesis
        using adjacency_weight_updateGraph [OF n t(2), of c ts "fromNodeId e" "toNodeId e" "e_channel e"]
        by auto
    qed
  qed
  moreover have "distinct (map fst (edges ?g'))"
    unfolding E using d by (rule distinct_update)
  ultimately show ?thesis
    unfolding t(1) by (auto simp: edge_weights_match_def edge_keys_match_def list_all_iff)
qed

lemma edge_index_sound_no_edges:
  "edges g = [] \<Longrightarrow> edge_index_sound g"
  by (simp add: edge_index_sound_def edge_weights_match_def edge_keys_match_def)

lemma updateGraph_sound:
  "edge_index_sound g \<Longrightarrow> edge_index_sound (updateGraph p t c ts g)"
  using updateGraph_preserves [of g p t c ts] by (simp add: edge_index_sound_def)

lemma new_node_sound:
  assumes "edge_index_sound g" and fresh: "p \<notin> fst ` set (nodes g)"
    and "nodes g' = AList.update p n (nodes g)" and "edges g' = edges g"
  shows "edge_index_sound g'"
proof -
  have "adjacency_weight g' s t c = adjacency_weight g s t c" if "s \<noteq> p" for s t c
    using that assms(3) by (simp add: adjacency_weight_def update_conv')
  moreover have "fromNodeId e \<noteq> p" if "(k, e) \<in> set (edges g)" for k e
  proof
    assume "fromNodeId e = p"
    moreover from that assms(1)
    have "adjacency_weight g (fromNodeId e) (toNodeId e) (e_channel e) = Some (weight e)"
      by (auto simp: edge_index_sound_def edge_weights_match_def list_all_iff)
    moreover from fresh have "map_of (nodes g) p = None"
      by (simp add: map_of_eq_None_iff)
    ultimately show False
      by (simp add: adjacency_weight_def)
  qed
  ultimately show ?thesis
    using assms(1,4)
    by (auto simp: edge_index_sound_def edge_weights_match_def edge_keys_match_def list_all_iff)
qed

text \<open>
  Every handler but \<open>POST /api/session/create\<close> keeps the edge index sound, provided
  \<open>uuidv4\<close> gives a joining participant an identifier that no node has.
\<close>

lemma step_keeps_edge_index_sound:
  assumes sound: "edge_index_sound (graph w)" and step: "step e w = Inr (out, w')"
    and not_create: "\<And>sid qs. e \<noteq> CreateSession sid qs"
    and fresh: "\<And>sock sid name p. e = JoinSession sock sid name p \<Longrightarrow> p \<notin> fst ` set (nodes (graph w))"
  shows "edge_index_sound (graph w')"
proof (cases e)
  case (CreateSession sid qs)
  then show ?thesis using not_create by blast
next
  case (JoinSession sock sid name p)
  show ?thesis
  proof (cases "sid \<noteq> s_id w \<or> \<not> isActive w \<or> participantCount w \<ge> 20")
    case True
    then have "w' = w" using step JoinSession by (auto simp: joinSession_def split: if_splits)
    then show ?thesis using sound by simp
  next
    case False
    then have "nodes (graph w') = AList.update p
                 \<lparr>n_id = p, n_embedding = zero_embedding, connections = []\<rparr> (nodes (graph w))"
      and "edges (graph w') = edges (graph w)"
      using step JoinSession by (auto simp: joinSession_def Let_def split: if_splits)
    then show ?thesis
      using new_node_sound [OF sound fresh [OF JoinSession]] by blast
  qed
next
  case (SubmitResponse sock q t ts)
  then have "graph w' = graph w \<or> (\<exists>p c. graph w' = updateGraph p t c ts (graph w))"
    using step graph_submitResponse by simp
  then show ?thesis using sound updateGraph_sound by auto
next
  case (Disconnect sock)
  then have "graph w' = graph w"
    using step by (auto simp: disconnect_def Let_def split: option.splits)
  then show ?thesis using sound by simp
next
  case NextQuestion
  then have "graph w' = graph w"
    using step by (auto simp: nextQuestion_def Let_def split: if_splits option.splits)
  then show ?thesis using sound by simp
next
  case EpochUpdate
  then have "graph w' = graph w"
    using step by (auto simp: epochUpdate_def)
  then show ?thesis using sound by simp
next
  case (PauseResume pause)
  then have "graph w' = graph w"
    using step by (auto simp: checkForAutoAdvance_fields pauseResume_def clearTimeout_def split: if_splits)
  then show ?thesis using sound by simp
next
  case EndSession
  then have "graph w' = graph w \<or> edges (graph w') = []"
    using step by (auto simp: endSession_def clearTimeout_def split: if_splits)
  then show ?thesis using sound edge_index_sound_no_edges by auto
next
  case StartQuestions
  then have "graph w' = graph w"
    using step
    by (auto simp: startQuestions_def advanceToNextQuestion_def Let_def
        split: if_splits option.splits)
  then show ?thesis using sound by simp
next
  case (TimeoutFires h)
  then have "graph w' = graph w"
    using step
    by (auto simp: timeoutFires_def advanceToNextQuestion_def Let_def
        split: if_splits option.splits)
  then show ?thesis using sound by simp
qed

text \<open>
  C1. The weight of every edge record equals the weight in the adjacency map of its
  source: this holds in the state reached by \<open>first_session\<close>, and every handler but
  one keeps it (\<open>step_keeps_edge_index_sound\<close>). \<open>POST /api/session/create\<close> clears the
  nodes and keeps the edge records, so the state after a second creation is reachable
  and has an edge of weight 1 whose source has no adjacency map.
\<close>

theorem createSession_breaks_edge_weights:
  "reachable (final (run (first_session @ [CreateSession ''s2'' two_questions]) initial_world))
   \<and> edge_weights_match (graph (final (run first_session initial_world)))
   \<and> \<not> edge_weights_match
         (graph (final (run (first_session @ [CreateSession ''s2'' two_questions]) initial_world)))
   \<and> map_of (edges (graph (final (run (first_session @ [CreateSession ''s2'' two_questions])
                                    initial_world)))) (edgeId ''A'' ''B'' Technical)
       = Some \<lparr>fromNodeId = ''A'', toNodeId = ''B'', e_channel = Technical, weight = 1,
               e_timestamp = 100\<rparr>
   \<and> adjacency_weight
         (graph (final (run (first_session @ [CreateSession ''s2'' two_questions]) initial_world)))
         ''A'' ''B'' Technical = None"
proof -
  have "\<not> isl (run (first_session @ [CreateSession ''s2'' two_questions]) initial_world)"
    by code_simp
  then have "reachable (final (run (first_session @ [CreateSession ''s2'' two_questions]) initial_world))"
    by (rule reachable_final)
  moreover have "edge_weights_match (graph (final (run first_session initial_world)))"
    by code_simp
  moreover have "\<not> edge_weights_match
         (graph (final (run (first_session @ [CreateSession ''s2'' two_questions]) initial_world)))"
    by code_simp
  moreover have "map_of (edges (graph (final (run (first_session @ [CreateSession ''s2'' two_questions])
                                    initial_world)))) (edgeId ''A'' ''B'' Technical)
       = Some \<lparr>fromNodeId = ''A'', toNodeId = ''B'', e_channel = Technical, weight = 1,
               e_timestamp = 100\<rparr>"
    by code_simp
  moreover have "adjacency_weight
         (graph (final (run (first_session @ [CreateSession ''s2'' two_questions]) initial_world)))
         ''A'' ''B'' Technical = None"
    by code_simp
  ultimately show ?thesis by blast
qed

section \<open>Resubmission\<close>

text \<open>
  C2, as the code has it. When a participant answers the current question twice, the
  second response replaces the first in the response table, which is then the table
  that the final response alone would have given. The graph is updated by both
  responses: the second adds 1 to the weight that the first left for its source,
  target and channel, in the adjacency map and in the edge record.
\<close>

theorem resubmission_overwrites_table_adds_weight:
  assumes "map_of (sockets w) sock = Some p" and "p \<noteq> []"
    and "nth_js (questions w) (currentQuestionIndex w) = Some qu"
  shows "\<exists>out1 w1 out2 w2 out3 w3.
           submitResponse sock (currentQuestionIndex w) t1 ts1 w = Inr (out1, w1)
         \<and> submitResponse sock (currentQuestionIndex w) t2 ts2 w1 = Inr (out2, w2)
         \<and> submitResponse sock (currentQuestionIndex w) t2 ts2 w = Inr (out3, w3)
         \<and> currentQuestionIndex w1 = currentQuestionIndex w
         \<and> responses w2 = responses w3
         \<and> graph w2 = updateGraph p t2 (q_channel qu) ts2
                         (updateGraph p t1 (q_channel qu) ts1 (graph w))
         \<and> (\<forall>n tgt. map_of (nodes (graph w)) p = Some n \<and> t2 = Some tgt \<and> tgt \<noteq> [] \<longrightarrow>
               adjacency_weight (graph w2) p tgt (q_channel qu)
                 = Some (Suc (case adjacency_weight (graph w1) p tgt (q_channel qu) of
                                None \<Rightarrow> 0 | Some v \<Rightarrow> v))
               \<and> map_of (edges (graph w2)) (edgeId p tgt (q_channel qu))
                 = Some \<lparr>fromNodeId = p, toNodeId = tgt, e_channel = q_channel qu,
                         weight = Suc (case adjacency_weight (graph w1) p tgt (q_channel qu) of
                                         None \<Rightarrow> 0 | Some v \<Rightarrow> v),
                         e_timestamp = ts2\<rparr>)"
proof -
  let ?q = "currentQuestionIndex w"
  let ?c = "q_channel qu"
  let ?old = "case map_of (responses w) ?q of None \<Rightarrow> [] | Some m \<Rightarrow> m"
  let ?r1 = "\<lparr>r_targetParticipantId = t1, r_channel = ?c, r_timestamp = ts1\<rparr>"
  let ?r2 = "\<lparr>r_targetParticipantId = t2, r_channel = ?c, r_timestamp = ts2\<rparr>"
  define w1 where "w1 = checkForAutoAdvance ?q
     (w\<lparr>responses := AList.update ?q (AList.update p ?r1 ?old) (responses w),
         graph := updateGraph p t1 ?c ts1 (graph w)\<rparr>)"
  define w3 where "w3 = checkForAutoAdvance ?q
     (w\<lparr>responses := AList.update ?q (AList.update p ?r2 ?old) (responses w),
         graph := updateGraph p t2 ?c ts2 (graph w)\<rparr>)"
  have same: "sockets w1 = sockets w" "questions w1 = questions w"
    "currentQuestionIndex w1 = ?q"
    by (simp_all add: checkForAutoAdvance_fields w1_def)
  have r1: "responses w1 = AList.update ?q (AList.update p ?r1 ?old) (responses w)"
    and g1: "graph w1 = updateGraph p t1 ?c ts1 (graph w)"
    by (simp_all add: checkForAutoAdvance_fields w1_def)
  define w2 where "w2 = checkForAutoAdvance ?q
     (w1\<lparr>responses := AList.update ?q
            (AList.update p ?r2 (case map_of (responses w1) ?q of None \<Rightarrow> [] | Some m \<Rightarrow> m))
            (responses w1),
          graph := updateGraph p t2 ?c ts2 (graph w1)\<rparr>)"
  obtain out1 where s1: "submitResponse sock ?q t1 ts1 w = Inr (out1, w1)"
    using submitResponse_accepted [OF assms, of t1 ts1] by (simp add: w1_def)
  obtain out3 where s3: "submitResponse sock ?q t2 ts2 w = Inr (out3, w3)"
    using submitResponse_accepted [OF assms, of t2 ts2] by (simp add: w3_def)
  have a1: "map_of (sockets w1) sock = Some p"
    and q1: "nth_js (questions w1) (currentQuestionIndex w1) = Some qu"
    using assms by (simp_all add: same)
  obtain out2 where s2: "submitResponse sock ?q t2 ts2 w1 = Inr (out2, w2)"
    using submitResponse_accepted [OF a1 assms(2) q1, of t2 ts2]
    by (simp add: w2_def same)
  have resp: "responses w2 = responses w3"
    by (simp add: checkForAutoAdvance_fields w2_def w3_def r1 update_conv')
  have g2: "graph w2 = updateGraph p t2 ?c ts2 (updateGraph p t1 ?c ts1 (graph w))"
    by (simp add: checkForAutoAdvance_fields w2_def g1)
  have weights: "adjacency_weight (graph w2) p tgt ?c
                 = Some (Suc (case adjacency_weight (graph w1) p tgt ?c of None \<Rightarrow> 0 | Some v \<Rightarrow> v))
               \<and> map_of (edges (graph w2)) (edgeId p tgt ?c)
                 = Some \<lparr>fromNodeId = p, toNodeId = tgt, e_channel = ?c,
                         weight = Suc (case adjacency_weight (graph w1) p tgt ?c of
                                         None \<Rightarrow> 0 | Some v \<Rightarrow> v),
                         e_timestamp = ts2\<rparr>"
    if n: "map_of (nodes (graph w)) p = Some n" and t: "t2 = Some tgt" "tgt \<noteq> []" for n tgt
  proof -
    obtain n1 where n1: "map_of (nodes (graph w1)) p = Some n1"
      using node_kept_updateGraph [OF n] unfolding g1 by blast
    have "graph w2 = updateGraph p (Some tgt) ?c ts2 (graph w1)"
      by (simp add: checkForAutoAdvance_fields w2_def t)
    then show ?thesis
      using adjacency_weight_updateGraph [OF n1 t(2), of ?c ts2 p tgt ?c]
        edges_updateGraph [OF n1 t(2), of ?c ts2]
      by (simp add: update_conv')
  qed
  show ?thesis
    using s1 s2 s3 same(3) resp g2 weights by blast
qed

theorem resubmission_overwrites_table_adds_weight_witness:
  "map_of (sockets (final (run session_start initial_world))) ''sockA'' = Some ''A''
   \<and> ''A'' \<noteq> []
   \<and> nth_js (questions (final (run session_start initial_world)))
        (currentQuestionIndex (final (run session_start initial_world)))
      = Some \<lparr>q_text = ''Q0'', q_channel = Technical\<rparr>
   \<and> map_of (nodes (graph (final (run session_start initial_world)))) ''A''
      = Some \<lparr>n_id = ''A'', n_embedding = zero_embedding, connections = []\<rparr>
   \<and> (\<exists>out1 w1 out2 w2.
         submitResponse ''sockA'' 0 (Some ''B'') 100 (final (run session_start initial_world))
           = Inr (out1, w1)
       \<and> submitResponse ''sockA'' 0 (Some ''B'') 101 w1 = Inr (out2, w2)
       \<and> adjacency_weight (graph w2) ''A'' ''B'' Technical
           = Some (Suc (case adjacency_weight (graph w1) ''A'' ''B'' Technical of
                          None \<Rightarrow> 0 | Some v \<Rightarrow> v)))"
proof -
  let ?w = "final (run session_start initial_world)"
  have h1: "map_of (sockets ?w) ''sockA'' = Some ''A''" by code_simp
  have h2: "''A'' \<noteq> []" by simp
  have h3: "nth_js (questions ?w) (currentQuestionIndex ?w)
            = Some \<lparr>q_text = ''Q0'', q_channel = Technical\<rparr>" by code_simp
  have h4: "map_of (nodes (graph ?w)) ''A''
            = Some \<lparr>n_id = ''A'', n_embedding = zero_embedding, connections = []\<rparr>" by code_simp
  have c: "currentQuestionIndex ?w = 0" by code_simp
  from resubmission_overwrites_table_adds_weight [OF h1 h2 h3, of "Some ''B''" 100 "Some ''B''" 101]
  obtain out1 w1 out2 w2 where
    "submitResponse ''sockA'' 0 (Some ''B'') 100 ?w = Inr (out1, w1)"
    "submitResponse ''sockA'' 0 (Some ''B'') 101 w1 = Inr (out2, w2)"
    "\<forall>n tgt. map_of (nodes (graph ?w)) ''A'' = Some n \<and> Some ''B'' = Some tgt \<and> tgt \<noteq> [] \<longrightarrow>
       adjacency_weight (graph w2) ''A'' tgt Technical
         = Some (Suc (case adjacency_weight (graph w1) ''A'' tgt Technical of
                        None \<Rightarrow> 0 | Some v \<Rightarrow> v))
       \<and> map_of (edges (graph w2)) (edgeId ''A'' tgt Technical)
         = Some \<lparr>fromNodeId = ''A'', toNodeId = tgt, e_channel = Technical,
                 weight = Suc (case adjacency_weight (graph w1) ''A'' tgt Technical of
                                 None \<Rightarrow> 0 | Some v \<Rightarrow> v),
                 e_timestamp = 101\<rparr>"
    unfolding c by auto
  then show ?thesis
    using h1 h3 h4 by auto
qed

text \<open>
  C2, as stated, fails: when \<open>A\<close> answers question 0 with \<open>B\<close> twice, the weight of
  (\<open>A\<close>, \<open>B\<close>, technical) is 2, and it is 1 when only the final answer is submitted;
  when \<open>A\<close> answers \<open>B\<close> and then corrects the answer to \<open>A\<close>, the weight 1 of
  (\<open>A\<close>, \<open>B\<close>, technical) stays, and the final answer alone leaves no such weight.
\<close>

theorem resubmission_counts_twice:
  "adjacency_weight
     (graph (final (run (session_start @ [SubmitResponse ''sockA'' 0 (Some ''B'') 100,
                                          SubmitResponse ''sockA'' 0 (Some ''B'') 101])
                        initial_world))) ''A'' ''B'' Technical = Some 2
   \<and> adjacency_weight
     (graph (final (run (session_start @ [SubmitResponse ''sockA'' 0 (Some ''B'') 101])
                        initial_world))) ''A'' ''B'' Technical = Some 1
   \<and> adjacency_weight
     (graph (final (run (session_start @ [SubmitResponse ''sockA'' 0 (Some ''B'') 100,
                                          SubmitResponse ''sockA'' 0 (Some ''A'') 101])
                        initial_world))) ''A'' ''B'' Technical = Some 1
   \<and> adjacency_weight
     (graph (final (run (session_start @ [SubmitResponse ''sockA'' 0 (Some ''A'') 101])
                        initial_world))) ''A'' ''B'' Technical = None
   \<and> currentQuestionIndex
     (final (run (session_start @ [SubmitResponse ''sockA'' 0 (Some ''B'') 100,
                                   SubmitResponse ''sockA'' 0 (Some ''B'') 101])
                 initial_world)) = 0"
  by code_simp

section \<open>Advancing the question\<close>

text \<open>
  C3, as the code has it. \<open>advanceToNextQuestion\<close>, the advance that the timer and
  \<open>start-questions\<close> run, does nothing and sends nothing while the session is paused.
  \<open>POST /api/session/next-question\<close>, the manual advance, refuses while the current
  question has outstanding respondents: it replies with the two counts, sends nothing
  else and leaves the state as it is.
\<close>

theorem advance_guards:
  "(isPaused w \<longrightarrow> advanceToNextQuestion w = Inr ([], w))
   \<and> (isPaused w \<and> currentQuestionIndex w < 0 \<longrightarrow>
        startQuestions w = Inr ([Reply ReplyStarted], w))
   \<and> (0 \<le> currentQuestionIndex w
        \<and> responseCount w (currentQuestionIndex w) < participantCount w
        \<and> 0 < participantCount w \<longrightarrow>
        nextQuestion w =
          Inr ([Reply (ReplyWaiting (responseCount w (currentQuestionIndex w))
                                    (participantCount w))], w))"
  by (simp add: advanceToNextQuestion_def startQuestions_def nextQuestion_def)

theorem advance_guards_witness:
  "isPaused (final (run paused_session initial_world))
   \<and> currentQuestionIndex (final (run paused_session initial_world)) < 0
   \<and> advanceToNextQuestion (final (run paused_session initial_world))
       = Inr ([], final (run paused_session initial_world))
   \<and> startQuestions (final (run paused_session initial_world))
       = Inr ([Reply ReplyStarted], final (run paused_session initial_world))
   \<and> 0 \<le> currentQuestionIndex (final (run session_start initial_world))
   \<and> responseCount (final (run session_start initial_world)) 0 = 0
   \<and> participantCount (final (run session_start initial_world)) = 2
   \<and> nextQuestion (final (run session_start initial_world))
       = Inr ([Reply (ReplyWaiting 0 2)], final (run session_start initial_world))"
proof -
  let ?p = "final (run paused_session initial_world)"
  let ?s = "final (run session_start initial_world)"
  have p: "isPaused ?p" "currentQuestionIndex ?p < 0" by code_simp+
  have s: "currentQuestionIndex ?s = 0" "responseCount ?s 0 = 0" "participantCount ?s = 2"
    by code_simp+
  show ?thesis
    using advance_guards [of ?p] advance_guards [of ?s] p s by simp
qed

text \<open>
  C3, as stated, fails in three ways. With no active session (after
  \<open>POST /api/session/end\<close>) both advances move the cursor. While the session is paused
  the manual advance moves the cursor. And the timer's advance moves the cursor although
  a participant who joined after the timer was armed has not answered.
\<close>

theorem advance_unguarded:
  "\<not> isActive (final (run ended_session initial_world))
   \<and> currentQuestionIndex (final (run ended_session initial_world)) = -1
   \<and> currentQuestionIndex (final (run (ended_session @ [NextQuestion]) initial_world)) = 0
   \<and> currentQuestionIndex (final (run (ended_session @ [StartQuestions]) initial_world)) = 0
   \<and> isPaused (final (run paused_session initial_world))
   \<and> currentQuestionIndex (final (run paused_session initial_world)) = -1
   \<and> currentQuestionIndex (final (run (paused_session @ [NextQuestion]) initial_world)) = 0
   \<and> currentQuestionIndex (final (run late_joiner initial_world)) = 0
   \<and> responseCount (final (run late_joiner initial_world)) 0 = 2
   \<and> participantCount (final (run late_joiner initial_world)) = 3
   \<and> pendingTimeouts (final (run late_joiner initial_world)) = [(0, 5000)]
   \<and> currentQuestionIndex (final (run (late_joiner @ [TimeoutFires 0]) initial_world)) = 1"
  by code_simp

section \<open>The epoch counter\<close>

lemma advance_moves_epoch:
  assumes "w' = w \<or>
         w' = w\<lparr>currentQuestionIndex := currentQuestionIndex w + 1,
                 epochCount := epochCount w + 1\<rparr>"
    and "currentQuestionIndex w' \<noteq> currentQuestionIndex w"
  shows "currentQuestionIndex w' = currentQuestionIndex w + 1 \<and> epochCount w' = epochCount w + 1"
  using assms by auto

text \<open>
  C4, as the code has it. Whenever \<open>advanceToNextQuestion\<close> moves the cursor, run by the
  timer or by \<open>start-questions\<close>, the cursor and the epoch both grow by exactly one. The
  manual \<open>POST /api/session/next-question\<close> never changes the epoch, and
  \<open>POST /api/session/epoch-update\<close> adds one to the epoch and leaves the cursor.
\<close>

theorem epoch_follows_automatic_advance:
  "(advanceToNextQuestion w = Inr (out, w') \<and> currentQuestionIndex w' \<noteq> currentQuestionIndex w \<longrightarrow>
      currentQuestionIndex w' = currentQuestionIndex w + 1 \<and> epochCount w' = epochCount w + 1)
   \<and> (timeoutFires h w = Inr (out, w') \<and> currentQuestionIndex w' \<noteq> currentQuestionIndex w \<longrightarrow>
      currentQuestionIndex w' = currentQuestionIndex w + 1 \<and> epochCount w' = epochCount w + 1)
   \<and> (startQuestions w = Inr (out, w') \<and> currentQuestionIndex w' \<noteq> currentQuestionIndex w \<longrightarrow>
      currentQuestionIndex w' = currentQuestionIndex w + 1 \<and> epochCount w' = epochCount w + 1)
   \<and> (nextQuestion w = Inr (out, w') \<longrightarrow> epochCount w' = epochCount w)
   \<and> epochCount (snd (epochUpdate w)) = epochCount w + 1
   \<and> currentQuestionIndex (snd (epochUpdate w)) = currentQuestionIndex w"
proof -
  have a: "currentQuestionIndex w' = currentQuestionIndex w + 1 \<and> epochCount w' = epochCount w + 1"
    if "advanceToNextQuestion w = Inr (out, w')"
      and "currentQuestionIndex w' \<noteq> currentQuestionIndex w" for w out w'
    using advance_moves_epoch [OF advanceToNextQuestion_cases [OF that(1)] that(2)] .
  have t: "currentQuestionIndex w' = currentQuestionIndex w + 1 \<and> epochCount w' = epochCount w + 1"
    if "timeoutFires h w = Inr (out, w')"
      and "currentQuestionIndex w' \<noteq> currentQuestionIndex w"
  proof (cases "h \<in> fst ` set (pendingTimeouts w)")
    case True
    let ?v = "w\<lparr>pendingTimeouts := filter (\<lambda>(h', delay). h' \<noteq> h) (pendingTimeouts w)\<rparr>"
    from True that(1) have "advanceToNextQuestion ?v = Inr (out, w')"
      by (simp add: timeoutFires_def)
    from a [OF this] that(2) show ?thesis by simp
  next
    case False
    with that show ?thesis by (simp add: timeoutFires_def)
  qed
  have s: "currentQuestionIndex w' = currentQuestionIndex w + 1 \<and> epochCount w' = epochCount w + 1"
    if "startQuestions w = Inr (out, w')"
      and "currentQuestionIndex w' \<noteq> currentQuestionIndex w"
  proof (cases "currentQuestionIndex w \<ge> 0")
    case True
    with that show ?thesis by (simp add: startQuestions_def)
  next
    case False
    with that(1) obtain out0 where "advanceToNextQuestion w = Inr (out0, w')"
      by (auto simp: startQuestions_def split: sum.splits)
    from a [OF this that(2)] show ?thesis .
  qed
  have n: "epochCount w' = epochCount w" if "nextQuestion w = Inr (out, w')"
    using that by (auto simp: nextQuestion_def Let_def split: if_splits option.splits)
  show ?thesis
    using a t s n by (simp add: epochUpdate_def)
qed

theorem epoch_follows_automatic_advance_witness:
  "timeoutFires 0 (final (run late_joiner initial_world))
     = Inr ([EmitNewQuestion 1 ''Q1'' Social [(''A'', ''Ann''), (''B'', ''Bob''), (''C'', ''Cid'')],
             EmitEpochUpdate 2],
            final (run (late_joiner @ [TimeoutFires 0]) initial_world))
   \<and> currentQuestionIndex (final (run late_joiner initial_world)) = 0
   \<and> epochCount (final (run late_joiner initial_world)) = 1
   \<and> currentQuestionIndex (final (run (late_joiner @ [TimeoutFires 0]) initial_world)) = 1
   \<and> epochCount (final (run (late_joiner @ [TimeoutFires 0]) initial_world)) = 2"
proof -
  let ?w = "final (run late_joiner initial_world)"
  let ?w' = "final (run (late_joiner @ [TimeoutFires 0]) initial_world)"
  let ?out = "[EmitNewQuestion 1 ''Q1'' Social [(''A'', ''Ann''), (''B'', ''Bob''), (''C'', ''Cid'')],
               EmitEpochUpdate 2]"
  have f: "timeoutFires 0 ?w = Inr (?out, ?w')" by code_simp
  have c: "currentQuestionIndex ?w = 0" "epochCount ?w = 1" "currentQuestionIndex ?w' = 1"
    by code_simp+
  from epoch_follows_automatic_advance [of ?w ?out ?w' 0] f c
  have "epochCount ?w' = 2" by simp
  with f c show ?thesis by simp
qed

text \<open>
  C4, as stated, fails for the manual advance: in a new session
  \<open>POST /api/session/next-question\<close> moves the cursor from -1 to 0 and the epoch stays 0.
\<close>

theorem manual_advance_keeps_epoch:
  "currentQuestionIndex (final (run [CreateSession ''s1'' two_questions] initial_world)) = -1
   \<and> epochCount (final (run [CreateSession ''s1'' two_questions] initial_world)) = 0
   \<and> currentQuestionIndex
        (final (run [CreateSession ''s1'' two_questions, NextQuestion] initial_world)) = 0
   \<and> epochCount
        (final (run [CreateSession ''s1'' two_questions, NextQuestion] initial_world)) = 0"
  by code_simp

section \<open>Responses while paused\<close>

text \<open>
  C10. While the session is paused, a response for the current question is accepted:
  it is stored in the response table, the graph is updated (the adjacency weight and
  the edge record of a present target grow by one), and no timeout is armed. The reply,
  the response table and the graph are those of the same submission to the session
  when it is not paused.
\<close>

theorem paused_response_is_recorded:
  assumes "isPaused w" and "map_of (sockets w) sock = Some p" and "p \<noteq> []"
    and "nth_js (questions w) (currentQuestionIndex w) = Some qu"
  shows "\<exists>out w' answers.
           submitResponse sock (currentQuestionIndex w) t ts w = Inr (out, w')
         \<and> map_of (responses w') (currentQuestionIndex w) = Some answers
         \<and> map_of answers p
             = Some \<lparr>r_targetParticipantId = t, r_channel = q_channel qu, r_timestamp = ts\<rparr>
         \<and> graph w' = updateGraph p t (q_channel qu) ts (graph w)
         \<and> (\<forall>n tgt. map_of (nodes (graph w)) p = Some n \<and> t = Some tgt \<and> tgt \<noteq> [] \<longrightarrow>
               adjacency_weight (graph w') p tgt (q_channel qu)
                 = Some (Suc (case adjacency_weight (graph w) p tgt (q_channel qu) of
                                None \<Rightarrow> 0 | Some v \<Rightarrow> v))
               \<and> map_of (edges (graph w')) (edgeId p tgt (q_channel qu))
                 = Some \<lparr>fromNodeId = p, toNodeId = tgt, e_channel = q_channel qu,
                         weight = Suc (case adjacency_weight (graph w) p tgt (q_channel qu) of
                                         None \<Rightarrow> 0 | Some v \<Rightarrow> v),
                         e_timestamp = ts\<rparr>)
         \<and> pendingTimeouts w' = pendingTimeouts w
         \<and> autoAdvanceTimer w' = autoAdvanceTimer w
         \<and> timeoutSeq w' = timeoutSeq w
         \<and> (\<exists>v'. submitResponse sock (currentQuestionIndex w) t ts (w\<lparr>isPaused := False\<rparr>)
                     = Inr (out, v')
                 \<and> responses v' = responses w' \<and> graph v' = graph w')"
proof -
  let ?q = "currentQuestionIndex w"
  let ?c = "q_channel qu"
  let ?r = "\<lparr>r_targetParticipantId = t, r_channel = ?c, r_timestamp = ts\<rparr>"
  define answers where
    "answers = AList.update p ?r (case map_of (responses w) ?q of None \<Rightarrow> [] | Some m \<Rightarrow> m)"
  define w1 where
    "w1 = w\<lparr>responses := AList.update ?q answers (responses w),
            graph := updateGraph p t ?c ts (graph w)\<rparr>"
  define u where "u = w\<lparr>isPaused := False\<rparr>"
  define v' where
    "v' = checkForAutoAdvance ?q
            (u\<lparr>responses := AList.update ?q answers (responses u),
               graph := updateGraph p t ?c ts (graph u)\<rparr>)"
  define out where
    "out = [SocketResponseSubmitted,
            EmitResponseCountUpdate ?q (length answers) (participantCount w)]"
  have paused: "checkForAutoAdvance ?q w1 = w1"
    using assms(1) by (simp add: checkForAutoAdvance_def w1_def)
  have s: "submitResponse sock ?q t ts w = Inr (out, w1)"
    using submitResponse_accepted [OF assms(2-4), of t ts]
    unfolding answers_def [symmetric] w1_def [symmetric] out_def [symmetric] paused .
  have same: "sockets u = sockets w" "questions u = questions w"
    "currentQuestionIndex u = ?q" "responses u = responses w" "participantCount u = participantCount w"
    by (simp_all add: u_def participantCount_def)
  have a: "map_of (sockets u) sock = Some p"
    and q: "nth_js (questions u) (currentQuestionIndex u) = Some qu"
    using assms(2,4) by (simp_all add: same)
  have u: "submitResponse sock ?q t ts u = Inr (out, v')"
    using submitResponse_accepted [OF a assms(3) q, of t ts]
    unfolding same answers_def [symmetric] v'_def out_def .
  have r1: "map_of (responses w1) ?q = Some answers"
    by (simp add: w1_def update_conv')
  have r2: "map_of answers p = Some ?r"
    by (simp add: answers_def update_conv')
  have g: "graph w1 = updateGraph p t ?c ts (graph w)"
    by (simp add: w1_def)
  have tm: "pendingTimeouts w1 = pendingTimeouts w" "autoAdvanceTimer w1 = autoAdvanceTimer w"
    "timeoutSeq w1 = timeoutSeq w"
    by (simp_all add: w1_def)
  have v: "responses v' = responses w1" "graph v' = graph w1"
    by (simp_all add: checkForAutoAdvance_fields v'_def w1_def u_def)
  have weights: "\<forall>n tgt. map_of (nodes (graph w)) p = Some n \<and> t = Some tgt \<and> tgt \<noteq> [] \<longrightarrow>
                 adjacency_weight (graph w1) p tgt ?c
                 = Some (Suc (case adjacency_weight (graph w) p tgt ?c of None \<Rightarrow> 0 | Some v \<Rightarrow> v))
               \<and> map_of (edges (graph w1)) (edgeId p tgt ?c)
                 = Some \<lparr>fromNodeId = p, toNodeId = tgt, e_channel = ?c,
                         weight = Suc (case adjacency_weight (graph w) p tgt ?c of
                                         None \<Rightarrow> 0 | Some v \<Rightarrow> v),
                         e_timestamp = ts\<rparr>"
  proof (intro allI impI)
    fix n tgt
    assume h: "map_of (nodes (graph w)) p = Some n \<and> t = Some tgt \<and> tgt \<noteq> []"
    then have n: "map_of (nodes (graph w)) p = Some n" and t: "t = Some tgt" "tgt \<noteq> []"
      by simp_all
    show "adjacency_weight (graph w1) p tgt ?c
                 = Some (Suc (case adjacency_weight (graph w) p tgt ?c of None \<Rightarrow> 0 | Some v \<Rightarrow> v))
               \<and> map_of (edges (graph w1)) (edgeId p tgt ?c)
                 = Some \<lparr>fromNodeId = p, toNodeId = tgt, e_channel = ?c,
                         weight = Suc (case adjacency_weight (graph w) p tgt ?c of
                                         None \<Rightarrow> 0 | Some v \<Rightarrow> v),
                         e_timestamp = ts\<rparr>"
      unfolding g t(1)
      using adjacency_weight_updateGraph [OF n t(2), of ?c ts p tgt ?c]
        edges_updateGraph [OF n t(2), of ?c ts]
      by (simp add: update_conv')
  qed
  from u v have "\<exists>v'. submitResponse sock ?q t ts (w\<lparr>isPaused := False\<rparr>) = Inr (out, v')
                 \<and> responses v' = responses w1 \<and> graph v' = graph w1"
    unfolding u_def by blast
  with s r1 r2 g weights tm show ?thesis
    by blast
qed

theorem paused_response_is_recorded_witness:
  "isPaused (final (run paused_question initial_world))
   \<and> map_of (sockets (final (run paused_question initial_world))) ''sockA'' = Some ''A''
   \<and> ''A'' \<noteq> []
   \<and> nth_js (questions (final (run paused_question initial_world)))
        (currentQuestionIndex (final (run paused_question initial_world)))
      = Some \<lparr>q_text = ''Q0'', q_channel = Technical\<rparr>
   \<and> (\<exists>out w' answers.
         submitResponse ''sockA'' 0 (Some ''B'') 100 (final (run paused_question initial_world))
           = Inr (out, w')
       \<and> map_of (responses w') 0 = Some answers
       \<and> map_of answers ''A''
           = Some \<lparr>r_targetParticipantId = Some ''B'', r_channel = Technical, r_timestamp = 100\<rparr>
       \<and> adjacency_weight (graph w') ''A'' ''B'' Technical = Some 1
       \<and> pendingTimeouts w' = [])"
proof -
  let ?w = "final (run paused_question initial_world)"
  have h1: "isPaused ?w" by code_simp
  have h2: "map_of (sockets ?w) ''sockA'' = Some ''A''" by code_simp
  have h3: "''A'' \<noteq> []" by simp
  have h4: "nth_js (questions ?w) (currentQuestionIndex ?w)
            = Some \<lparr>q_text = ''Q0'', q_channel = Technical\<rparr>" by code_simp
  have n: "map_of (nodes (graph ?w)) ''A''
            = Some \<lparr>n_id = ''A'', n_embedding = zero_embedding, connections = []\<rparr>" by code_simp
  have c: "currentQuestionIndex ?w = 0" by code_simp
  have old: "adjacency_weight (graph ?w) ''A'' ''B'' Technical = None" by code_simp
  have pend: "pendingTimeouts ?w = []" by code_simp
  from paused_response_is_recorded [OF h1 h2 h3 h4, of "Some ''B''" 100]
  obtain out w' answers where
    "submitResponse ''sockA'' 0 (Some ''B'') 100 ?w = Inr (out, w')"
    "map_of (responses w') 0 = Some answers"
    "map_of answers ''A''
       = Some \<lparr>r_targetParticipantId = Some ''B'', r_channel = Technical, r_timestamp = 100\<rparr>"
    "\<forall>n tgt. map_of (nodes (graph ?w)) ''A'' = Some n \<and> Some ''B'' = Some tgt \<and> tgt \<noteq> [] \<longrightarrow>
       adjacency_weight (graph w') ''A'' tgt Technical
         = Some (Suc (case adjacency_weight (graph ?w) ''A'' tgt Technical of
                        None \<Rightarrow> 0 | Some v \<Rightarrow> v))
       \<and> map_of (edges (graph w')) (edgeId ''A'' tgt Technical)
         = Some \<lparr>fromNodeId = ''A'', toNodeId = tgt, e_channel = Technical,
                 weight = Suc (case adjacency_weight (graph ?w) ''A'' tgt Technical of
                                 None \<Rightarrow> 0 | Some v \<Rightarrow> v),
                 e_timestamp = 100\<rparr>"
    "pendingTimeouts w' = pendingTimeouts ?w"
    unfolding c by auto
  then show ?thesis
    using h1 h2 h4 n old pend by auto
qed

section \<open>The auto-advance timer\<close>

lemma clear_own_timer:
  assumes "timers_ok w"
  shows "filter (\<lambda>(h, delay). Some h \<noteq> autoAdvanceTimer w) (pendingTimeouts w) = []"
  using assms by (auto simp: timers_ok_def split: option.splits)

lemma timers_ok_cong:
  assumes "pendingTimeouts v = pendingTimeouts w" and "autoAdvanceTimer v = autoAdvanceTimer w"
    and "isPaused v = isPaused w" and "timeoutSeq v = timeoutSeq w"
  shows "timers_ok v = timers_ok w"
  unfolding timers_ok_def assms ..

lemma timers_ok_fresh:
  "timers_ok w \<Longrightarrow> timeoutSeq w \<notin> fst ` set (pendingTimeouts w)"
  by (auto simp: timers_ok_def split: option.splits)

lemma timers_ok_none:
  "timers_ok w \<Longrightarrow> pendingTimeouts v = [] \<Longrightarrow> autoAdvanceTimer v = autoAdvanceTimer w
   \<Longrightarrow> timeoutSeq v = timeoutSeq w \<Longrightarrow> timers_ok v"
  by (simp add: timers_ok_def split: option.splits)

lemma timers_ok_length:
  "timers_ok w \<Longrightarrow> length (pendingTimeouts w) \<le> 1"
  by (auto simp: timers_ok_def split: option.splits)

lemma timers_ok_paused:
  "timers_ok w \<Longrightarrow> isPaused w \<Longrightarrow> pendingTimeouts w = []"
  by (auto simp: timers_ok_def split: option.splits)

lemma pending_checkForAutoAdvance:
  assumes "timers_ok w"
  shows "pendingTimeouts (checkForAutoAdvance q w) =
           (if \<not> isPaused w \<and> responseCount w q \<ge> participantCount w \<and> participantCount w > 0
            then [(timeoutSeq w, 5000)] else pendingTimeouts w)"
    and "\<not> isPaused w \<and> responseCount w q \<ge> participantCount w \<and> participantCount w > 0
         \<Longrightarrow> autoAdvanceTimer (checkForAutoAdvance q w) = Some (timeoutSeq w)"
  using clear_own_timer [OF assms]
  by (simp_all add: checkForAutoAdvance_def setAutoAdvanceTimeout_def clearTimeout_def)

lemma timers_ok_checkForAutoAdvance:
  assumes "timers_ok w"
  shows "timers_ok (checkForAutoAdvance q w)"
  using assms clear_own_timer [OF assms]
  by (simp add: checkForAutoAdvance_def setAutoAdvanceTimeout_def clearTimeout_def timers_ok_def)

lemma timers_ok_advanceToNextQuestion:
  assumes "timers_ok w" and "advanceToNextQuestion w = Inr (out, w')"
  shows "timers_ok w'"
proof -
  from advanceToNextQuestion_cases [OF assms(2)]
  have "pendingTimeouts w' = pendingTimeouts w" "autoAdvanceTimer w' = autoAdvanceTimer w"
    "isPaused w' = isPaused w" "timeoutSeq w' = timeoutSeq w"
    by auto
  from timers_ok_cong [OF this] assms(1) show ?thesis by simp
qed

lemma timers_ok_step:
  assumes ok: "timers_ok w" and step: "step e w = Inr (out, w')"
  shows "timers_ok w'"
proof (cases e)
  case (CreateSession sid qs)
  with step have "w' = snd (createSession sid qs w)" by auto
  then have "pendingTimeouts w' = pendingTimeouts w" "autoAdvanceTimer w' = autoAdvanceTimer w"
    "isPaused w' = isPaused w" "timeoutSeq w' = timeoutSeq w"
    by (simp_all add: createSession_def)
  from timers_ok_cong [OF this] ok show ?thesis by simp
next
  case (JoinSession sock sid name p)
  with step have "w' = snd (joinSession sock sid name p w)" by auto
  then have "pendingTimeouts w' = pendingTimeouts w" "autoAdvanceTimer w' = autoAdvanceTimer w"
    "isPaused w' = isPaused w" "timeoutSeq w' = timeoutSeq w"
    by (simp_all add: joinSession_def Let_def)
  from timers_ok_cong [OF this] ok show ?thesis by simp
next
  case (SubmitResponse sock q t ts)
  show ?thesis
  proof (cases "\<not> truthy (map_of (sockets w) sock) \<or> q \<noteq> currentQuestionIndex w")
    case True
    then have "w' = w" using step SubmitResponse by (auto simp: submitResponse_def)
    then show ?thesis using ok by simp
  next
    case False
    then obtain p qu where "map_of (sockets w) sock = Some p" "p \<noteq> []"
      "nth_js (questions w) (currentQuestionIndex w) = Some qu" and q: "q = currentQuestionIndex w"
      using step SubmitResponse by (auto simp: submitResponse_def split: option.splits)
    from submitResponse_accepted [OF this(1-3), of t ts] step SubmitResponse q
    obtain v where w': "w' = checkForAutoAdvance q v"
      and "pendingTimeouts v = pendingTimeouts w" "autoAdvanceTimer v = autoAdvanceTimer w"
      "isPaused v = isPaused w" "timeoutSeq v = timeoutSeq w"
      by auto
    from timers_ok_cong [OF this(2-5)] ok have "timers_ok v" by simp
    then show ?thesis unfolding w' by (rule timers_ok_checkForAutoAdvance)
  qed
next
  case (Disconnect sock)
  with step have "w' = snd (disconnect sock w)" by auto
  then have "pendingTimeouts w' = pendingTimeouts w" "autoAdvanceTimer w' = autoAdvanceTimer w"
    "isPaused w' = isPaused w" "timeoutSeq w' = timeoutSeq w"
    by (auto simp: disconnect_def Let_def split: option.splits)
  from timers_ok_cong [OF this] ok show ?thesis by simp
next
  case NextQuestion
  with step have "nextQuestion w = Inr (out, w')" by simp
  then have "pendingTimeouts w' = pendingTimeouts w" "autoAdvanceTimer w' = autoAdvanceTimer w"
    "isPaused w' = isPaused w" "timeoutSeq w' = timeoutSeq w"
    by (auto simp: nextQuestion_def Let_def split: if_splits option.splits)
  from timers_ok_cong [OF this] ok show ?thesis by simp
next
  case EpochUpdate
  with step have "w' = snd (epochUpdate w)" by auto
  then have "pendingTimeouts w' = pendingTimeouts w" "autoAdvanceTimer w' = autoAdvanceTimer w"
    "isPaused w' = isPaused w" "timeoutSeq w' = timeoutSeq w"
    by (simp_all add: epochUpdate_def)
  from timers_ok_cong [OF this] ok show ?thesis by simp
next
  case (PauseResume pause)
  with step have w': "w' = snd (pauseResume pause w)" by auto
  show ?thesis
  proof (cases pause)
    case True
    then have "pendingTimeouts w' = []" "autoAdvanceTimer w' = autoAdvanceTimer w"
      "timeoutSeq w' = timeoutSeq w"
      using w' clear_own_timer [OF ok] by (simp_all add: pauseResume_def clearTimeout_def)
    then show ?thesis by (rule timers_ok_none [OF ok])
  next
    case False
    have "timers_ok (w\<lparr>isPaused := False\<rparr>)"
      using ok by (auto simp: timers_ok_def split: option.splits)
    then show ?thesis
      using w' False timers_ok_checkForAutoAdvance by (simp add: pauseResume_def)
  qed
next
  case EndSession
  with step have w': "w' = snd (endSession w)" by auto
  show ?thesis
  proof (cases "isActive w")
    case True
    then have "pendingTimeouts w' = []" "autoAdvanceTimer w' = autoAdvanceTimer w"
      "timeoutSeq w' = timeoutSeq w"
      using w' clear_own_timer [OF ok] by (simp_all add: endSession_def clearTimeout_def)
    then show ?thesis by (rule timers_ok_none [OF ok])
  next
    case False
    then show ?thesis using w' ok by (simp add: endSession_def)
  qed
next
  case StartQuestions
  show ?thesis
  proof (cases "currentQuestionIndex w \<ge> 0")
    case True
    then show ?thesis using step StartQuestions ok by (simp add: startQuestions_def)
  next
    case False
    then obtain out0 where "advanceToNextQuestion w = Inr (out0, w')"
      using step StartQuestions by (auto simp: startQuestions_def split: sum.splits)
    then show ?thesis using ok timers_ok_advanceToNextQuestion by blast
  qed
next
  case (TimeoutFires h)
  show ?thesis
  proof (cases "h \<in> fst ` set (pendingTimeouts w)")
    case True
    let ?v = "w\<lparr>pendingTimeouts := filter (\<lambda>(h', delay). h' \<noteq> h) (pendingTimeouts w)\<rparr>"
    have "pendingTimeouts ?v = []"
      using ok True by (auto simp: timers_ok_def split: option.splits)
    then have "timers_ok ?v" by (rule timers_ok_none [OF ok]) simp_all
    moreover have "advanceToNextQuestion ?v = Inr (out, w')"
      using step TimeoutFires True by (simp add: timeoutFires_def)
    ultimately show ?thesis using timers_ok_advanceToNextQuestion by blast
  next
    case False
    then show ?thesis using step TimeoutFires ok by (simp add: timeoutFires_def)
  qed
qed

lemma reachable_timers_ok:
  "reachable w \<Longrightarrow> timers_ok w"
proof (induction rule: reachable.induct)
  case reachable_initial
  show ?case by (simp add: timers_ok_def initial_world_def)
next
  case (reachable_step w e out w')
  then show ?case using timers_ok_step by blast
qed

text \<open>
  C7. In every state that the process can be in, at most one timeout is pending. A
  response that is accepted and that brings the count of the current question to the
  number of participants (at least one), while the session is not paused, leaves exactly
  one pending timeout, of 5000 ms, under a new handle: the one that was pending has been
  cleared. Pausing leaves no pending timeout. Resuming arms a new timeout exactly when
  a question is open and fully answered, and changes no timeout otherwise; while the
  session is paused none is pending. A timeout that fires is no longer pending.
\<close>

theorem one_pending_auto_advance:
  assumes "reachable w"
  shows "length (pendingTimeouts w) \<le> 1
       \<and> (submitResponse sock q t ts w = Inr (out, w')
          \<and> truthy (map_of (sockets w) sock) \<and> q = currentQuestionIndex w
          \<and> responseCount w' q \<ge> participantCount w' \<and> participantCount w' > 0
          \<and> \<not> isPaused w' \<longrightarrow>
            pendingTimeouts w' = [(timeoutSeq w, 5000)]
            \<and> autoAdvanceTimer w' = Some (timeoutSeq w)
            \<and> timeoutSeq w \<notin> fst ` set (pendingTimeouts w))
       \<and> pendingTimeouts (snd (pauseResume True w)) = []
       \<and> isPaused (snd (pauseResume True w))
       \<and> pendingTimeouts (snd (pauseResume False w)) =
           (if 0 \<le> currentQuestionIndex w
               \<and> responseCount w (currentQuestionIndex w) \<ge> participantCount w
               \<and> participantCount w > 0
            then [(timeoutSeq w, 5000)] else pendingTimeouts w)
       \<and> (isPaused w \<longrightarrow> pendingTimeouts w = [])
       \<and> (timeoutFires h w = Inr (out, w') \<and> h \<in> fst ` set (pendingTimeouts w) \<longrightarrow>
            pendingTimeouts w' = [])"
proof -
  have ok: "timers_ok w" using assms by (rule reachable_timers_ok)
  have submit: "pendingTimeouts w' = [(timeoutSeq w, 5000)]
            \<and> autoAdvanceTimer w' = Some (timeoutSeq w)
            \<and> timeoutSeq w \<notin> fst ` set (pendingTimeouts w)"
    if s: "submitResponse sock q t ts w = Inr (out, w')"
      and acc: "truthy (map_of (sockets w) sock)" "q = currentQuestionIndex w"
      and full: "responseCount w' q \<ge> participantCount w'" "participantCount w' > 0"
      and np: "\<not> isPaused w'"
  proof -
    from s acc obtain p qu where a: "map_of (sockets w) sock = Some p" "p \<noteq> []"
      "nth_js (questions w) (currentQuestionIndex w) = Some qu"
      by (auto simp: submitResponse_def split: option.splits)
    from submitResponse_accepted [OF a, of t ts] s acc(2)
    obtain v where w': "w' = checkForAutoAdvance q v"
      and v: "pendingTimeouts v = pendingTimeouts w" "autoAdvanceTimer v = autoAdvanceTimer w"
      "isPaused v = isPaused w" "timeoutSeq v = timeoutSeq w"
      by auto
    from timers_ok_cong [OF v] ok have okv: "timers_ok v" by simp
    have c: "\<not> isPaused v \<and> responseCount v q \<ge> participantCount v \<and> participantCount v > 0"
      using full np unfolding w' by (simp add: checkForAutoAdvance_fields responseCount_def participantCount_def)
    show ?thesis
      using pending_checkForAutoAdvance [OF okv, of q] c timers_ok_fresh [OF ok]
      unfolding w' v by simp
  qed
  have pause: "pendingTimeouts (snd (pauseResume True w)) = []"
    "isPaused (snd (pauseResume True w))"
    using clear_own_timer [OF ok] by (simp_all add: pauseResume_def clearTimeout_def)
  have "timers_ok (w\<lparr>isPaused := False\<rparr>)"
    using ok by (auto simp: timers_ok_def split: option.splits)
  from pending_checkForAutoAdvance(1) [OF this, of "currentQuestionIndex w"]
  have resume: "pendingTimeouts (snd (pauseResume False w)) =
           (if 0 \<le> currentQuestionIndex w
               \<and> responseCount w (currentQuestionIndex w) \<ge> participantCount w
               \<and> participantCount w > 0
            then [(timeoutSeq w, 5000)] else pendingTimeouts w)"
    by (simp add: pauseResume_def responseCount_def participantCount_def)
  have fire: "pendingTimeouts w' = []"
    if f: "timeoutFires h w = Inr (out, w')" and h: "h \<in> fst ` set (pendingTimeouts w)"
  proof -
    let ?v = "w\<lparr>pendingTimeouts := filter (\<lambda>(h', delay). h' \<noteq> h) (pendingTimeouts w)\<rparr>"
    have e: "pendingTimeouts ?v = []"
      using ok h by (auto simp: timers_ok_def split: option.splits)
    have "advanceToNextQuestion ?v = Inr (out, w')"
      using f h by (simp add: timeoutFires_def)
    from advanceToNextQuestion_cases [OF this] e show ?thesis by auto
  qed
  show ?thesis
    using timers_ok_length [OF ok] timers_ok_paused [OF ok] submit pause resume fire
    by blast
qed

theorem one_pending_auto_advance_witness:
  "reachable (final (run first_session initial_world))
   \<and> truthy (map_of (sockets (final (run first_session initial_world))) ''sockB'')
   \<and> currentQuestionIndex (final (run first_session initial_world)) = 0
   \<and> submitResponse ''sockB'' 0 (Some ''A'') 101 (final (run first_session initial_world))
       = Inr ([SocketResponseSubmitted, EmitResponseCountUpdate 0 2 2],
              final (run (first_session @ [SubmitResponse ''sockB'' 0 (Some ''A'') 101])
                         initial_world))
   \<and> responseCount (final (run (first_session @ [SubmitResponse ''sockB'' 0 (Some ''A'') 101])
                                 initial_world)) 0 = 2
   \<and> participantCount (final (run (first_session @ [SubmitResponse ''sockB'' 0 (Some ''A'') 101])
                                    initial_world)) = 2
   \<and> \<not> isPaused (final (run (first_session @ [SubmitResponse ''sockB'' 0 (Some ''A'') 101])
                                initial_world))
   \<and> timeoutSeq (final (run first_session initial_world)) = 0
   \<and> pendingTimeouts (final (run (first_session @ [SubmitResponse ''sockB'' 0 (Some ''A'') 101])
                                   initial_world)) = [(0, 5000)]"
proof -
  let ?w = "final (run first_session initial_world)"
  let ?w' = "final (run (first_session @ [SubmitResponse ''sockB'' 0 (Some ''A'') 101])
                        initial_world)"
  let ?out = "[SocketResponseSubmitted, EmitResponseCountUpdate 0 2 2]"
  have "\<not> isl (run first_session initial_world)" by code_simp
  then have r: "reachable ?w" by (rule reachable_final)
  have s: "submitResponse ''sockB'' 0 (Some ''A'') 101 ?w = Inr (?out, ?w')" by code_simp
  have a: "truthy (map_of (sockets ?w) ''sockB'')" "currentQuestionIndex ?w = 0" by code_simp+
  have f: "responseCount ?w' 0 = 2" "participantCount ?w' = 2" "\<not> isPaused ?w'" by code_simp+
  have q: "timeoutSeq ?w = 0" by code_simp
  from one_pending_auto_advance [OF r, of "''sockB''" 0 "Some ''A''" 101 ?out ?w'] s a f
  have "pendingTimeouts ?w' = [(timeoutSeq ?w, 5000)]" by simp
  with r s a f q show ?thesis by simp
qed

section \<open>Labels\<close>








text \<open>
  No handler of the source sets \<open>session.identityDeleted\<close>: no state that the process can
  be in is suppressed.
\<close>

lemma unsuppressed_step:
  assumes u: "\<not> identityDeleted w" and step: "step e w = Inr (out, w')"
  shows "\<not> identityDeleted w'"
proof (cases e)
  case (CreateSession sid qs)
  with step have "w' = snd (createSession sid qs w)" by auto
  then show ?thesis by (simp add: createSession_def)
next
  case (JoinSession sock sid name p)
  with step have "w' = snd (joinSession sock sid name p w)" by auto
  then show ?thesis using u by (simp add: joinSession_def Let_def)
next
  case (SubmitResponse sock q t ts)
  then have "identityDeleted w' = identityDeleted w"
    using step
    by (auto simp: checkForAutoAdvance_fields submitResponse_def Let_def
        split: if_splits option.splits)
  then show ?thesis using u by simp
next
  case (Disconnect sock)
  with step have "w' = snd (disconnect sock w)" by auto
  then show ?thesis using u by (auto simp: disconnect_def Let_def split: option.splits)
next
  case NextQuestion
  with step have "nextQuestion w = Inr (out, w')" by simp
  then show ?thesis using u
    by (auto simp: nextQuestion_def Let_def split: if_splits option.splits)
next
  case EpochUpdate
  with step have "w' = snd (epochUpdate w)" by auto
  then show ?thesis using u by (simp add: epochUpdate_def)
next
  case (PauseResume pause)
  with step have "w' = snd (pauseResume pause w)" by auto
  then show ?thesis using u
    by (simp add: checkForAutoAdvance_fields pauseResume_def clearTimeout_def)
next
  case EndSession
  with step have "w' = snd (endSession w)" by auto
  then show ?thesis using u
    by (cases "isActive w") (simp_all add: endSession_def clearTimeout_def)
next
  case StartQuestions
  then have "w' = w \<or> (\<exists>out0. advanceToNextQuestion w = Inr (out0, w'))"
    using step by (auto simp: startQuestions_def split: if_splits sum.splits)
  then show ?thesis using u advanceToNextQuestion_cases by fastforce
next
  case (TimeoutFires h)
  let ?v = "w\<lparr>pendingTimeouts := filter (\<lambda>(h', delay). h' \<noteq> h) (pendingTimeouts w)\<rparr>"
  from TimeoutFires step have "w' = w \<or> advanceToNextQuestion ?v = Inr (out, w')"
    by (auto simp: timeoutFires_def split: if_splits)
  then show ?thesis using u advanceToNextQuestion_cases [of ?v out w'] by auto
qed

lemma reachable_never_suppressed:
  "reachable w \<Longrightarrow> \<not> identityDeleted w"
proof (induction rule: reachable.induct)
  case reachable_initial
  show ?case by (simp add: initial_world_def)
next
  case (reachable_step w e out w')
  then show ?case using unsuppressed_step by blast
qed








section \<open>The states that can be reached\<close>

lemma cursor_advanceToNextQuestion:
  assumes "cursor_in_range w"
  shows "\<exists>out w'. advanceToNextQuestion w = Inr (out, w') \<and> cursor_in_range w'"
  using assms
  by (auto simp: advanceToNextQuestion_def cursor_in_range_def nth_js_def Let_def)

lemma cursor_nextQuestion:
  assumes "cursor_in_range w"
  shows "\<exists>out w'. nextQuestion w = Inr (out, w') \<and> cursor_in_range w'"
  using assms
  by (auto simp: nextQuestion_def cursor_in_range_def nth_js_def Let_def)

lemma cursor_in_range_cong:
  assumes "currentQuestionIndex v = currentQuestionIndex w" and "questions v = questions w"
  shows "cursor_in_range v = cursor_in_range w"
  unfolding cursor_in_range_def assms ..

lemma cursor_step:
  assumes ok: "cursor_in_range w" and step: "step e w = Inr (out, w')"
  shows "cursor_in_range w'"
proof (cases e)
  case (CreateSession sid qs)
  with step have "w' = snd (createSession sid qs w)" by auto
  then show ?thesis by (simp add: createSession_def cursor_in_range_def)
next
  case (JoinSession sock sid name p)
  with step have "w' = snd (joinSession sock sid name p w)" by auto
  then have "currentQuestionIndex w' = currentQuestionIndex w" "questions w' = questions w"
    by (simp_all add: joinSession_def Let_def)
  from cursor_in_range_cong [OF this] ok show ?thesis by simp
next
  case (SubmitResponse sock q t ts)
  then have "currentQuestionIndex w' = currentQuestionIndex w" "questions w' = questions w"
    using step by (auto simp: checkForAutoAdvance_fields submitResponse_def Let_def split: if_splits option.splits)
  from cursor_in_range_cong [OF this] ok show ?thesis by simp
next
  case (Disconnect sock)
  with step have "w' = snd (disconnect sock w)" by auto
  then have "currentQuestionIndex w' = currentQuestionIndex w" "questions w' = questions w"
    by (auto simp: disconnect_def Let_def split: option.splits)
  from cursor_in_range_cong [OF this] ok show ?thesis by simp
next
  case NextQuestion
  then show ?thesis using cursor_nextQuestion [OF ok] step by auto
next
  case EpochUpdate
  with step have "w' = snd (epochUpdate w)" by auto
  then have "currentQuestionIndex w' = currentQuestionIndex w" "questions w' = questions w"
    by (simp_all add: epochUpdate_def)
  from cursor_in_range_cong [OF this] ok show ?thesis by simp
next
  case (PauseResume pause)
  with step have "w' = snd (pauseResume pause w)" by auto
  then have "currentQuestionIndex w' = currentQuestionIndex w" "questions w' = questions w"
    by (simp_all add: checkForAutoAdvance_fields pauseResume_def clearTimeout_def)
  from cursor_in_range_cong [OF this] ok show ?thesis by simp
next
  case EndSession
  with step have "w' = snd (endSession w)" by auto
  then show ?thesis using ok
    by (cases "isActive w") (simp_all add: endSession_def clearTimeout_def cursor_in_range_def)
next
  case StartQuestions
  then have "w' = w \<or> (\<exists>out0. advanceToNextQuestion w = Inr (out0, w'))"
    using step by (auto simp: startQuestions_def split: if_splits sum.splits)
  then show ?thesis using ok cursor_advanceToNextQuestion [OF ok] by auto
next
  case (TimeoutFires h)
  let ?v = "w\<lparr>pendingTimeouts := filter (\<lambda>(h', delay). h' \<noteq> h) (pendingTimeouts w)\<rparr>"
  have v: "cursor_in_range ?v" using ok by (simp add: cursor_in_range_def)
  from TimeoutFires step have "w' = w \<or> advanceToNextQuestion ?v = Inr (out, w')"
    by (auto simp: timeoutFires_def split: if_splits)
  then show ?thesis using ok cursor_advanceToNextQuestion [OF v] by auto
qed

lemma reachable_cursor_in_range:
  "reachable w \<Longrightarrow> cursor_in_range w"
proof (induction rule: reachable.induct)
  case reachable_initial
  show ?case by (simp add: cursor_in_range_def initial_world_def)
next
  case (reachable_step w e out w')
  then show ?case using cursor_step by blast
qed

text \<open>
  In a state that can be reached no advance throws: the question that the cursor moves
  to exists. A response throws only before the first question, when the cursor is -1.
\<close>

lemma reachable_advance_total:
  assumes "reachable w"
  shows "\<exists>out w'. advanceToNextQuestion w = Inr (out, w')"
    and "\<exists>out w'. nextQuestion w = Inr (out, w')"
    and "\<exists>out w'. startQuestions w = Inr (out, w')"
    and "0 \<le> currentQuestionIndex w \<Longrightarrow> \<exists>out w'. submitResponse sock q t ts w = Inr (out, w')"
proof -
  have c: "cursor_in_range w" using assms by (rule reachable_cursor_in_range)
  show a: "\<exists>out w'. advanceToNextQuestion w = Inr (out, w')"
    using cursor_advanceToNextQuestion [OF c] by blast
  show "\<exists>out w'. nextQuestion w = Inr (out, w')"
    using cursor_nextQuestion [OF c] by blast
  show "\<exists>out w'. startQuestions w = Inr (out, w')"
    using a by (auto simp: startQuestions_def)
  show "\<exists>out w'. submitResponse sock q t ts w = Inr (out, w')" if "0 \<le> currentQuestionIndex w"
    using that c
    by (cases "map_of (sockets w) sock")
       (auto simp: submitResponse_def cursor_in_range_def nth_js_def Let_def)
qed

lemma maps_distinct_cong:
  assumes "participants v = participants w" and "responses v = responses w"
    and "graph v = graph w" and "sockets v = sockets w"
  shows "maps_distinct v = maps_distinct w"
  unfolding maps_distinct_def assms ..

lemma maps_distinct_advanceToNextQuestion:
  assumes "maps_distinct w" and "advanceToNextQuestion w = Inr (out, w')"
  shows "maps_distinct w'"
proof -
  from advanceToNextQuestion_cases [OF assms(2)]
  have "participants w' = participants w" "responses w' = responses w"
    "graph w' = graph w" "sockets w' = sockets w"
    by auto
  from maps_distinct_cong [OF this] assms(1) show ?thesis by simp
qed

lemma maps_distinct_step:
  assumes ok: "maps_distinct w" and step: "step e w = Inr (out, w')"
  shows "maps_distinct w'"
proof (cases e)
  case (CreateSession sid qs)
  with step have "w' = snd (createSession sid qs w)" by auto
  then show ?thesis using ok by (simp add: createSession_def maps_distinct_def)
next
  case (JoinSession sock sid name p)
  with step have "w' = snd (joinSession sock sid name p w)" by auto
  then show ?thesis using ok
    by (simp add: joinSession_def Let_def maps_distinct_def distinct_update)
next
  case (SubmitResponse sock q t ts)
  show ?thesis
  proof (cases "\<not> truthy (map_of (sockets w) sock) \<or> q \<noteq> currentQuestionIndex w")
    case True
    then have "w' = w" using step SubmitResponse by (auto simp: submitResponse_def)
    then show ?thesis using ok by simp
  next
    case False
    then obtain p qu where a: "map_of (sockets w) sock = Some p" "p \<noteq> []"
      "nth_js (questions w) (currentQuestionIndex w) = Some qu" and q: "q = currentQuestionIndex w"
      using step SubmitResponse by (auto simp: submitResponse_def split: option.splits)
    define answers where
      "answers = (case map_of (responses w) q of None \<Rightarrow> [] | Some m \<Rightarrow> m)"
    define r where
      "r = \<lparr>r_targetParticipantId = t, r_channel = q_channel qu, r_timestamp = ts\<rparr>"
    from submitResponse_accepted [OF a, of t ts] step SubmitResponse q
    have w': "participants w' = participants w" "sockets w' = sockets w"
      "responses w' = AList.update q (AList.update p r answers) (responses w)"
      "graph w' = updateGraph p t (q_channel qu) ts (graph w)"
      by (auto simp: checkForAutoAdvance_fields answers_def r_def)
    have "distinct (map fst answers)"
    proof (cases "map_of (responses w) q")
      case None
      then show ?thesis by (simp add: answers_def)
    next
      case (Some m)
      then have "(q, m) \<in> set (responses w)" by (rule map_of_SomeD)
      then show ?thesis using ok Some
        by (auto simp: answers_def maps_distinct_def list_all_iff)
    qed
    then have "distinct (map fst (AList.update p r answers))"
      by (rule distinct_update)
    then have "list_all (\<lambda>(q, answers). distinct (map fst answers))
                 (AList.update q (AList.update p r answers) (responses w))"
      using ok by (intro list_all_update) (simp_all add: maps_distinct_def)
    then show ?thesis
      using ok unfolding maps_distinct_def w'
      by (simp add: distinct_update distinct_nodes_updateGraph distinct_edges_updateGraph
          identityMap_updateGraph)
  qed
next
  case (Disconnect sock)
  with step have "w' = snd (disconnect sock w)" by auto
  then show ?thesis using ok
    by (auto simp: disconnect_def Let_def maps_distinct_def distinct_delete split: option.splits)
next
  case NextQuestion
  with step have "nextQuestion w = Inr (out, w')" by simp
  then have "participants w' = participants w" "responses w' = responses w"
    "graph w' = graph w" "sockets w' = sockets w"
    by (auto simp: nextQuestion_def Let_def split: if_splits option.splits)
  from maps_distinct_cong [OF this] ok show ?thesis by simp
next
  case EpochUpdate
  with step have "w' = snd (epochUpdate w)" by auto
  then have "participants w' = participants w" "responses w' = responses w"
    "graph w' = graph w" "sockets w' = sockets w"
    by (simp_all add: epochUpdate_def)
  from maps_distinct_cong [OF this] ok show ?thesis by simp
next
  case (PauseResume pause)
  with step have "w' = snd (pauseResume pause w)" by auto
  then have "participants w' = participants w" "responses w' = responses w"
    "graph w' = graph w" "sockets w' = sockets w"
    by (simp_all add: checkForAutoAdvance_fields pauseResume_def clearTimeout_def)
  from maps_distinct_cong [OF this] ok show ?thesis by simp
next
  case EndSession
  with step have "w' = snd (endSession w)" by auto
  then show ?thesis using ok
    by (cases "isActive w") (simp_all add: endSession_def clearTimeout_def maps_distinct_def)
next
  case StartQuestions
  then have "w' = w \<or> (\<exists>out0. advanceToNextQuestion w = Inr (out0, w'))"
    using step by (auto simp: startQuestions_def split: if_splits sum.splits)
  then show ?thesis using ok maps_distinct_advanceToNextQuestion by blast
next
  case (TimeoutFires h)
  let ?v = "w\<lparr>pendingTimeouts := filter (\<lambda>(h', delay). h' \<noteq> h) (pendingTimeouts w)\<rparr>"
  have v: "maps_distinct ?v" using ok by (simp add: maps_distinct_def)
  from TimeoutFires step have "w' = w \<or> advanceToNextQuestion ?v = Inr (out, w')"
    by (auto simp: timeoutFires_def split: if_splits)
  then show ?thesis using ok v maps_distinct_advanceToNextQuestion by blast
qed

text \<open>In every state that can be reached the lists are maps.\<close>

lemma reachable_maps_distinct:
  "reachable w \<Longrightarrow> maps_distinct w"
proof (induction rule: reachable.induct)
  case reachable_initial
  show ?case by (simp add: maps_distinct_def initial_world_def)
next
  case (reachable_step w e out w')
  then show ?case using maps_distinct_step by blast
qed

end
